theory Spec2Isabelle
  imports Main
begin

section \<open>The maze generator of \<^verbatim>\<open>maze.py\<close>\<close>

text \<open>
  The module defines the class \<^verbatim>\<open>Maze\<close> and, nested in it, the class \<^verbatim>\<open>Maze.Cell\<close>.
  Python objects are mutable and shared; the model passes the maze explicitly and every
  mutating method returns the new maze. Python integers are unbounded: \<open>int\<close>.
\<close>

subsection \<open>Data\<close>

text \<open>
  The exceptions the module can raise: a missing attribute, arithmetic on \<^verbatim>\<open>None\<close>, and
  more nested calls than the interpreter allows.
\<close>

datatype error = AttributeError | TypeError | RecursionError

text \<open>
  The fields of a \<^verbatim>\<open>Maze.Cell\<close> object (\<^verbatim>\<open>Cell.__init__\<close>), without the back reference
  \<^verbatim>\<open>__maze\<close>, which the model passes as an argument.
\<close>

record cell =
  cx :: int
  cy :: int
  empty :: bool
  wall_below :: bool
  wall_right :: bool

text \<open>
  The fields of a \<^verbatim>\<open>Maze\<close> object. The dictionary \<^verbatim>\<open>__cellrows\<close> holds, under the keys
  \<^verbatim>\<open>'min'\<close> and \<^verbatim>\<open>'max'\<close>, the two-element lists \<^verbatim>\<open>[x, y]\<close> of the bounding box (\<^verbatim>\<open>None\<close>
  until a cell is created) and, under each integer key \<^verbatim>\<open>y\<close>, the dictionary of the cells
  of row \<^verbatim>\<open>y\<close>, keyed by column. The string keys and the integer keys never meet, so they
  are separate fields here.
\<close>

record maze =
  max_width :: int
  max_height :: int
  min_x :: "int option"
  min_y :: "int option"
  max_x :: "int option"
  max_y :: "int option"
  cellrows :: "int \<rightharpoonup> (int \<rightharpoonup> cell)"

text \<open>
  A reference to a \<^verbatim>\<open>Cell\<close> object, as \<^verbatim>\<open>createCell\<close> and \<^verbatim>\<open>getCell\<close> return it. A cell built
  with \<^verbatim>\<open>empty=False\<close> is built in \<^verbatim>\<open>createCell\<close> only, and stored at once under its own
  coordinates in \<^verbatim>\<open>__cellrows\<close>, where it stays: the coordinates identify the object, and
  its walls are read from and written to the grid. A cell built with \<^verbatim>\<open>empty=True\<close> is
  held by the caller alone, and no method changes it: the reference is its value.
\<close>

datatype cellref = Real int int | Transient cell

subsection \<open>\<^verbatim>\<open>Maze.__init__\<close>, \<^verbatim>\<open>Maze.cellExists\<close>, \<^verbatim>\<open>Cell.__init__\<close>\<close>

definition Maze :: "int \<Rightarrow> int \<Rightarrow> maze" where
  "Maze w h = \<lparr>max_width = w, max_height = h, min_x = None, min_y = None,
                max_x = None, max_y = None, cellrows = Map.empty\<rparr>"

definition cellExists :: "maze \<Rightarrow> int \<Rightarrow> int \<Rightarrow> bool" where
  "cellExists m x y =
     (case cellrows m y of
        None \<Rightarrow> False
      | Some row \<Rightarrow> (case row x of None \<Rightarrow> False | Some c \<Rightarrow> True))"

definition Cell :: "maze \<Rightarrow> int \<Rightarrow> int \<Rightarrow> bool \<Rightarrow> cell" where
  "Cell m x y e =
     (if e then \<lparr>cx = x, cy = y, empty = e,
                 wall_below = cellExists m x (y + 1), wall_right = cellExists m (x + 1) y\<rparr>
      else \<lparr>cx = x, cy = y, empty = e, wall_below = True, wall_right = True\<rparr>)"

text \<open>The object stored at \<^verbatim>\<open>__cellrows[y][x]\<close>, if there is one.\<close>

definition stored :: "maze \<Rightarrow> int \<Rightarrow> int \<Rightarrow> cell option" where
  "stored m x y = (case cellrows m y of None \<Rightarrow> None | Some row \<Rightarrow> row x)"

text \<open>
  Writing a field of the object stored at \<^verbatim>\<open>__cellrows[y][x]\<close>: the object gets the new
  value \<open>c\<close>. Where no object is stored there is nothing to write to.
\<close>

definition store :: "maze \<Rightarrow> int \<Rightarrow> int \<Rightarrow> cell \<Rightarrow> maze" where
  "store m x y c =
     (case cellrows m y of
        None \<Rightarrow> m
      | Some row \<Rightarrow>
          (case row x of
             None \<Rightarrow> m
           | Some c0 \<Rightarrow> m\<lparr>cellrows := (cellrows m)(y \<mapsto> row(x \<mapsto> c))\<rparr>))"

text \<open>
  The object behind a reference. \<^verbatim>\<open>createCell\<close> and \<^verbatim>\<open>getCell\<close> return \<open>Real x y\<close> only
  for a stored cell and cells are never removed, so the last case is never met by a
  reference the module returned; there the lookup answers as \<^verbatim>\<open>getCell\<close> would.
\<close>

fun deref :: "maze \<Rightarrow> cellref \<Rightarrow> cell" where
  "deref m (Transient c) = c"
| "deref m (Real x y) = (case stored m x y of Some c \<Rightarrow> c | None \<Rightarrow> Cell m x y True)"

text \<open>The fields \<^verbatim>\<open>x\<close> and \<^verbatim>\<open>y\<close> of a cell are set by the constructor and never assigned again.\<close>

fun ref_x :: "cellref \<Rightarrow> int" where
  "ref_x (Real x y) = x"
| "ref_x (Transient c) = cx c"

fun ref_y :: "cellref \<Rightarrow> int" where
  "ref_y (Real x y) = y"
| "ref_y (Transient c) = cy c"

subsection \<open>The methods of \<^verbatim>\<open>Maze.Cell\<close>\<close>

definition str_cell :: "cell \<Rightarrow> string" where
  "str_cell c =
     (if wall_below c then ''_'' else '' '') @
     (if wall_right c then ''|'' else if wall_below c then ''_'' else '' '')"

definition hasWallRight :: "maze \<Rightarrow> cellref \<Rightarrow> bool" where
  "hasWallRight m r = wall_right (deref m r)"

definition hasWallBelow :: "maze \<Rightarrow> cellref \<Rightarrow> bool" where
  "hasWallBelow m r = wall_below (deref m r)"

definition breakWallRight :: "maze \<Rightarrow> cellref \<Rightarrow> maze \<times> bool" where
  "breakWallRight m r =
     (let c = deref m r in
      if \<not> empty c \<and> wall_right c
      then (store m (ref_x r) (ref_y r) (c\<lparr>wall_right := False\<rparr>), True)
      else (m, False))"

definition breakWallBelow :: "maze \<Rightarrow> cellref \<Rightarrow> maze \<times> bool" where
  "breakWallBelow m r =
     (let c = deref m r in
      if \<not> empty c \<and> wall_below c
      then (store m (ref_x r) (ref_y r) (c\<lparr>wall_below := False\<rparr>), True)
      else (m, False))"

subsection \<open>\<^verbatim>\<open>Maze.getCell\<close> and the attribute lookup on a maze\<close>

definition getCell :: "maze \<Rightarrow> int \<Rightarrow> int \<Rightarrow> cellref" where
  "getCell m x y =
     (if x < 0 \<or> x \<ge> max_width m then Transient (Cell m x y True)
      else if y < 0 \<or> y \<ge> max_height m then Transient (Cell m x y True)
      else case cellrows m y of
             None \<Rightarrow> Transient (Cell m x y True)
           | Some row \<Rightarrow>
               (case row x of
                  None \<Rightarrow> Transient (Cell m x y True)
                | Some c \<Rightarrow> Real x y))"

text \<open>
  The class \<^verbatim>\<open>Maze\<close> defines \<^verbatim>\<open>__init__\<close>, \<^verbatim>\<open>createCell\<close>, \<^verbatim>\<open>_recursivePopulate\<close>,
  \<^verbatim>\<open>populateFrom\<close>, \<^verbatim>\<open>cellExists\<close>, \<^verbatim>\<open>getCell\<close> and \<^verbatim>\<open>__str__\<close>, and no \<^verbatim>\<open>__getattr__\<close>.
  Python resolves the method of a call \<^verbatim>\<open>self.__maze.NAME(x, y)\<close> by the exact,
  case-sensitive name. The cell lookup of the class is \<^verbatim>\<open>getCell\<close>; a name the class does
  not define raises \<^verbatim>\<open>AttributeError\<close>.
\<close>

definition maze_cell_method :: "string \<Rightarrow> maze \<Rightarrow> int \<Rightarrow> int \<Rightarrow> error + cellref" where
  "maze_cell_method name m x y =
     (if name = ''getCell'' then Inr (getCell m x y) else Inl AttributeError)"

text \<open>
  \<^verbatim>\<open>hasWallLeft\<close>, \<^verbatim>\<open>hasWallAbove\<close> and \<^verbatim>\<open>breakWallLeft\<close> call \<^verbatim>\<open>self.__maze.getcell\<close>, with a
  lower-case \<^verbatim>\<open>c\<close>, as the source spells it.
\<close>

definition hasWallLeft :: "maze \<Rightarrow> cellref \<Rightarrow> error + bool" where
  "hasWallLeft m r =
     (case maze_cell_method ''getcell'' m (ref_x r - 1) (ref_y r) of
        Inl e \<Rightarrow> Inl e
      | Inr n \<Rightarrow> Inr (hasWallRight m n))"

definition hasWallAbove :: "maze \<Rightarrow> cellref \<Rightarrow> error + bool" where
  "hasWallAbove m r =
     (case maze_cell_method ''getcell'' m (ref_x r) (ref_y r - 1) of
        Inl e \<Rightarrow> Inl e
      | Inr n \<Rightarrow> Inr (hasWallBelow m n))"

definition breakWallLeft :: "maze \<Rightarrow> cellref \<Rightarrow> error + maze \<times> bool" where
  "breakWallLeft m r =
     (case maze_cell_method ''getcell'' m (ref_x r - 1) (ref_y r) of
        Inl e \<Rightarrow> Inl e
      | Inr n \<Rightarrow> Inr (breakWallRight m n))"

text \<open>
  \<^verbatim>\<open>breakWallAbove\<close> calls \<^verbatim>\<open>breakWallAbove\<close> again on the cell it looks up, so it is
  recursive, with no base case of its own: not returning is the value \<open>None\<close>.
\<close>

partial_function (option) breakWallAbove :: "maze \<Rightarrow> cellref \<Rightarrow> (error + maze \<times> bool) option" where
  "breakWallAbove m r =
     (case maze_cell_method ''getcell'' m (ref_x r) (ref_y r - 1) of
        Inl e \<Rightarrow> Some (Inl e)
      | Inr n \<Rightarrow> breakWallAbove m n)"

subsection \<open>\<^verbatim>\<open>Maze.createCell\<close>\<close>

text \<open>The four updates of the bounding box: \<^verbatim>\<open>if b is None or b > v: b = v\<close>, and with \<^verbatim>\<open><\<close>.\<close>

definition lower :: "int option \<Rightarrow> int \<Rightarrow> int option" where
  "lower b v = (case b of None \<Rightarrow> Some v | Some u \<Rightarrow> if u > v then Some v else Some u)"

definition raise :: "int option \<Rightarrow> int \<Rightarrow> int option" where
  "raise b v = (case b of None \<Rightarrow> Some v | Some u \<Rightarrow> if u < v then Some v else Some u)"

definition createCell :: "maze \<Rightarrow> int \<Rightarrow> int \<Rightarrow> maze \<times> cellref option" where
  "createCell m x y =
     (if x < 0 \<or> x \<ge> max_width m then (m, None)
      else if y < 0 \<or> y \<ge> max_height m then (m, None)
      else
        let m1 = m\<lparr>min_y := lower (min_y m) y\<rparr>;
            m2 = m1\<lparr>max_y := raise (max_y m1) y\<rparr>;
            m3 = m2\<lparr>min_x := lower (min_x m2) x\<rparr>;
            m4 = m3\<lparr>max_x := raise (max_x m3) x\<rparr>
        in case cellrows m4 y of
             None \<Rightarrow>
               (m4\<lparr>cellrows := (cellrows m4)(y \<mapsto> [x \<mapsto> Cell m4 x y False])\<rparr>, Some (Real x y))
           | Some row \<Rightarrow>
               (case row x of
                  None \<Rightarrow>
                    (m4\<lparr>cellrows := (cellrows m4)(y \<mapsto> row(x \<mapsto> Cell m4 x y False))\<rparr>,
                     Some (Real x y))
                | Some c \<Rightarrow> (m4, Some (Real x y))))"

subsection \<open>The random source\<close>

text \<open>
  \<^verbatim>\<open>random.sample(population, 4)\<close> on a list of four elements returns the four elements
  in an order drawn from the module's global generator. The generator is modelled as the
  stream of the numbers it will deliver; \<open>pick\<close> decodes a number into an order, taking
  the element at index \<open>k mod n\<close> of the \<open>n\<close> elements left and going on with \<open>k div n\<close>.
  Nothing is assumed about the stream, so a property proved for every stream holds for
  every order the generator can produce.
\<close>

type_synonym rng = "nat \<Rightarrow> nat"

fun pick :: "nat \<Rightarrow> nat \<Rightarrow> 'a list \<Rightarrow> 'a list" where
  "pick 0 k xs = []"
| "pick (Suc n) k xs =
     (if xs = [] then []
      else let i = k mod length xs
           in xs ! i # pick n (k div length xs) (take i xs @ drop (Suc i) xs))"

text \<open>A generator that delivers the same number \<open>k\<close> for ever.\<close>

definition fixed_rng :: "nat \<Rightarrow> rng" where
  "fixed_rng k = (\<lambda>n. k)"

definition sample :: "rng \<Rightarrow> 'a list \<Rightarrow> nat \<Rightarrow> 'a list \<times> rng" where
  "sample g population k = (pick k (g 0) population, \<lambda>n. g (Suc n))"

subsection \<open>\<^verbatim>\<open>Maze._recursivePopulate\<close> and \<^verbatim>\<open>Maze.populateFrom\<close>\<close>

text \<open>
  The four functions of the list that \<^verbatim>\<open>_recursivePopulate\<close> samples: the first two break
  a wall of their argument, the new neighbour; the last two ignore the argument and break
  a wall of \<^verbatim>\<open>cell\<close>, the cell of the call.
\<close>

datatype action = ArgBreakWallRight | ArgBreakWallBelow | CellBreakWallRight | CellBreakWallBelow

fun apply_action :: "action \<Rightarrow> maze \<Rightarrow> cellref \<Rightarrow> cellref \<Rightarrow> maze \<times> bool" where
  "apply_action ArgBreakWallRight m cell x = breakWallRight m x"
| "apply_action ArgBreakWallBelow m cell x = breakWallBelow m x"
| "apply_action CellBreakWallRight m cell x = breakWallRight m cell"
| "apply_action CellBreakWallBelow m cell x = breakWallBelow m cell"

definition directions :: "cellref \<Rightarrow> ((int \<times> int) \<times> action) list" where
  "directions cell =
     [((ref_x cell - 1, ref_y cell), ArgBreakWallRight),
      ((ref_x cell, ref_y cell - 1), ArgBreakWallBelow),
      ((ref_x cell + 1, ref_y cell), CellBreakWallRight),
      ((ref_x cell, ref_y cell + 1), CellBreakWallBelow)]"

text \<open>
  The \<^verbatim>\<open>for\<close> loop of \<^verbatim>\<open>_recursivePopulate\<close> over the sampled list \<open>dirs\<close>. The call
  \<^verbatim>\<open>self._recursivePopulate(nc)\<close> in its body is made on a cell that is not \<^verbatim>\<open>None\<close>: it
  samples the directions of \<^verbatim>\<open>nc\<close> and runs the loop for \<^verbatim>\<open>nc\<close>. Python bounds the depth
  of the recursion (\<^verbatim>\<open>RecursionError\<close>); the model does not.
\<close>

function recursivePopulate_loop ::
    "maze \<Rightarrow> rng \<Rightarrow> cellref \<Rightarrow> ((int \<times> int) \<times> action) list \<Rightarrow> maze \<times> rng" where
  "recursivePopulate_loop m g cell [] = (m, g)"
| "recursivePopulate_loop m g cell (dir # dirs) =
     (if \<not> cellExists m (fst (fst dir)) (snd (fst dir)) then
        (case createCell m (fst (fst dir)) (snd (fst dir)) of
           (m1, None) \<Rightarrow> recursivePopulate_loop m1 g cell dirs
         | (m1, Some nc) \<Rightarrow>
             (let m2 = fst (apply_action (snd dir) m1 cell nc);
                  (order, g1) = sample g (directions nc) 4;
                  (m3, g2) = recursivePopulate_loop m2 g1 nc order
              in recursivePopulate_loop m3 g2 cell dirs))
      else recursivePopulate_loop m g cell dirs)"
  by pat_completeness auto

text \<open>
  \<^verbatim>\<open>_recursivePopulate(cell)\<close>: the list of directions reads \<^verbatim>\<open>cell.x\<close>, which raises
  \<^verbatim>\<open>AttributeError\<close> when \<^verbatim>\<open>cell\<close> is \<^verbatim>\<open>None\<close>, before anything is sampled or changed.
\<close>

definition recursivePopulate :: "maze \<Rightarrow> rng \<Rightarrow> cellref option \<Rightarrow> error + maze \<times> rng" where
  "recursivePopulate m g cell =
     (case cell of
        None \<Rightarrow> Inl AttributeError
      | Some c \<Rightarrow>
          (let (order, g1) = sample g (directions c) 4
           in Inr (recursivePopulate_loop m g1 c order)))"

text \<open>\<^verbatim>\<open>populateFrom\<close> returns the new maze, the generator left over and the Boolean result.\<close>

definition populateFrom :: "maze \<Rightarrow> rng \<Rightarrow> int \<Rightarrow> int \<Rightarrow> error + (maze \<times> rng) \<times> bool" where
  "populateFrom m g x y =
     (if cellExists m x y then Inr ((m, g), False)
      else
        (let (m1, cell) = createCell m x y
         in case recursivePopulate m1 g cell of
              Inl e \<Rightarrow> Inl e
            | Inr (m2, g2) \<Rightarrow> Inr ((m2, g2), True)))"

subsection \<open>The carving under the interpreter's recursion limit\<close>

text \<open>
  \<^verbatim>\<open>_recursivePopulate\<close> calls itself natively, one nested call for every cell it carves
  into, and Python raises \<^verbatim>\<open>RecursionError\<close> when a call would exceed the interpreter's
  limit. Here \<open>d\<close> is the number of nested calls of \<^verbatim>\<open>_recursivePopulate\<close> that the
  interpreter still allows where the function is called (with the room that the calls
  made inside one of them need). A call with \<open>d = 0\<close> raises; a call that is made runs its
  loop with \<open>d - 1\<close>. The functions return the error alone: the half-carved maze that the
  exception leaves behind is not modelled.
\<close>

fun recursivePopulate_loop_lim ::
    "nat \<Rightarrow> maze \<Rightarrow> rng \<Rightarrow> cellref \<Rightarrow> ((int \<times> int) \<times> action) list \<Rightarrow> error + maze \<times> rng" where
  "recursivePopulate_loop_lim d m g cell [] = Inr (m, g)"
| "recursivePopulate_loop_lim d m g cell (dir # dirs) =
     (if \<not> cellExists m (fst (fst dir)) (snd (fst dir)) then
        (case createCell m (fst (fst dir)) (snd (fst dir)) of
           (m1, None) \<Rightarrow> recursivePopulate_loop_lim d m1 g cell dirs
         | (m1, Some nc) \<Rightarrow>
             (let m2 = fst (apply_action (snd dir) m1 cell nc)
              in case d of
                   0 \<Rightarrow> Inl RecursionError
                 | Suc d' \<Rightarrow>
                     (let (order, g1) = sample g (directions nc) 4
                      in case recursivePopulate_loop_lim d' m2 g1 nc order of
                           Inl e \<Rightarrow> Inl e
                         | Inr (m3, g2) \<Rightarrow> recursivePopulate_loop_lim d m3 g2 cell dirs)))
      else recursivePopulate_loop_lim d m g cell dirs)"

definition recursivePopulate_lim ::
    "nat \<Rightarrow> maze \<Rightarrow> rng \<Rightarrow> cellref option \<Rightarrow> error + maze \<times> rng" where
  "recursivePopulate_lim d m g cell =
     (case d of
        0 \<Rightarrow> Inl RecursionError
      | Suc d' \<Rightarrow>
          (case cell of
             None \<Rightarrow> Inl AttributeError
           | Some c \<Rightarrow>
               (let (order, g1) = sample g (directions c) 4
                in recursivePopulate_loop_lim d' m g1 c order)))"

definition populateFrom_lim ::
    "nat \<Rightarrow> maze \<Rightarrow> rng \<Rightarrow> int \<Rightarrow> int \<Rightarrow> error + (maze \<times> rng) \<times> bool" where
  "populateFrom_lim d m g x y =
     (if cellExists m x y then Inr ((m, g), False)
      else
        (let (m1, cell) = createCell m x y
         in case recursivePopulate_lim d m1 g cell of
              Inl e \<Rightarrow> Inl e
            | Inr (m2, g2) \<Rightarrow> Inr ((m2, g2), True)))"

subsection \<open>\<^verbatim>\<open>Maze.__str__\<close>\<close>

text \<open>
  The inner loop over the columns of one row, the outer loop over the rows. Each bound
  of a \<^verbatim>\<open>range\<close> is an arithmetic expression on an entry of the bounding box, which
  raises \<^verbatim>\<open>TypeError\<close> when the entry is \<^verbatim>\<open>None\<close>. \<^verbatim>\<open>range(a - 1, b + 1)\<close> runs from
  \<open>a - 1\<close> to \<open>b\<close>.
\<close>

fun str_cols :: "maze \<Rightarrow> int \<Rightarrow> string \<Rightarrow> int list \<Rightarrow> string" where
  "str_cols m row ret [] = ret"
| "str_cols m row ret (col # cols) =
     str_cols m row (ret @ str_cell (deref m (getCell m col row))) cols"

fun str_rows :: "maze \<Rightarrow> string \<Rightarrow> int list \<Rightarrow> error + string" where
  "str_rows m ret [] = Inr ret"
| "str_rows m ret (row # rows) =
     (case min_x m of
        None \<Rightarrow> Inl TypeError
      | Some x0 \<Rightarrow>
          (case max_x m of
             None \<Rightarrow> Inl TypeError
           | Some x1 \<Rightarrow> str_rows m (str_cols m row ret [x0 - 1 .. x1] @ [CHR 0x0A]) rows))"

definition str_maze :: "maze \<Rightarrow> error + string" where
  "str_maze m =
     (case min_y m of
        None \<Rightarrow> Inl TypeError
      | Some y0 \<Rightarrow>
          (case max_y m of
             None \<Rightarrow> Inl TypeError
           | Some y1 \<Rightarrow> str_rows m [] [y0 - 1 .. y1]))"

text \<open>
  The two calls that \<^verbatim>\<open>main\<close> makes on the maze it has constructed: \<^verbatim>\<open>populateFrom\<close>, whose
  result it drops, then \<^verbatim>\<open>str\<close>.
\<close>

definition populate_and_render :: "int \<Rightarrow> int \<Rightarrow> rng \<Rightarrow> int \<Rightarrow> int \<Rightarrow> error + string" where
  "populate_and_render w h g x y =
     (case populateFrom (Maze w h) g x y of
        Inl e \<Rightarrow> Inl e
      | Inr ((m, g'), b) \<Rightarrow> str_maze m)"

text \<open>The maze of width and height 1 after \<^verbatim>\<open>createCell(0, 0)\<close>.\<close>

definition one_cell :: maze where
  "one_cell = fst (createCell (Maze 1 1) 0 0)"

section \<open>The notions of the specification\<close>

subsection \<open>Bounds, populated cells, reachable states\<close>

definition in_bounds :: "maze \<Rightarrow> int \<Rightarrow> int \<Rightarrow> bool" where
  "in_bounds m x y \<longleftrightarrow> 0 \<le> x \<and> x < max_width m \<and> 0 \<le> y \<and> y < max_height m"

definition cells :: "maze \<Rightarrow> (int \<times> int) set" where
  "cells m = {(x, y). cellExists m x y}"

text \<open>The coordinates within the bounds at which no cell is stored yet.\<close>

definition free :: "maze \<Rightarrow> (int \<times> int) set" where
  "free m = {(x, y). in_bounds m x y \<and> \<not> cellExists m x y}"

text \<open>Within the bounding box recorded so far.\<close>

definition in_bbox :: "maze \<Rightarrow> int \<Rightarrow> int \<Rightarrow> bool" where
  "in_bbox m x y \<longleftrightarrow>
     (\<exists>x0 x1 y0 y1. min_x m = Some x0 \<and> max_x m = Some x1 \<and> min_y m = Some y0 \<and>
        max_y m = Some y1 \<and> x0 \<le> x \<and> x \<le> x1 \<and> y0 \<le> y \<and> y \<le> y1)"

text \<open>
  The states a caller can bring a maze into: by the constructor, by \<^verbatim>\<open>createCell\<close>, by a
  \<^verbatim>\<open>populateFrom\<close> that returns, and by breaking a wall of a cell that \<^verbatim>\<open>getCell\<close> returned.
  A call that raises \<^verbatim>\<open>AttributeError\<close> or \<^verbatim>\<open>TypeError\<close> leaves the maze as it was; the
  maze that a \<^verbatim>\<open>RecursionError\<close> leaves half carved is not modelled.
\<close>

inductive reachable :: "maze \<Rightarrow> bool" where
  reachable_init: "reachable (Maze w h)"
| reachable_create: "reachable m \<Longrightarrow> reachable (fst (createCell m x y))"
| reachable_populate:
    "reachable m \<Longrightarrow> populateFrom m g x y = Inr ((m', g'), b) \<Longrightarrow> reachable m'"
| reachable_breakRight: "reachable m \<Longrightarrow> reachable (fst (breakWallRight m (getCell m x y)))"
| reachable_breakBelow: "reachable m \<Longrightarrow> reachable (fst (breakWallBelow m (getCell m x y)))"

text \<open>The states reached by the constructor, \<^verbatim>\<open>createCell\<close> and \<^verbatim>\<open>populateFrom\<close> alone.\<close>

inductive generated :: "maze \<Rightarrow> bool" where
  generated_init: "generated (Maze w h)"
| generated_create: "generated m \<Longrightarrow> generated (fst (createCell m x y))"
| generated_populate:
    "generated m \<Longrightarrow> populateFrom m g x y = Inr ((m', g'), b) \<Longrightarrow> generated m'"

text \<open>
  Every stored cell is a real one, and a wall is absent only where the cell on its other
  side exists.
\<close>

definition walls_backed :: "maze \<Rightarrow> bool" where
  "walls_backed m \<longleftrightarrow>
     (\<forall>x y c. stored m x y = Some c \<longrightarrow>
        \<not> empty c \<and> (\<not> wall_right c \<longrightarrow> cellExists m (x + 1) y) \<and>
        (\<not> wall_below c \<longrightarrow> cellExists m x (y + 1)))"

subsection \<open>Broken walls and the passage graph\<close>

text \<open>
  A wall is stored once, in the cell to its left or above it. The broken walls of a maze
  are the stored cells whose right wall is absent and those whose bottom wall is absent.
\<close>

definition broken_right :: "maze \<Rightarrow> (int \<times> int) set" where
  "broken_right m = {(x, y). \<exists>c. stored m x y = Some c \<and> \<not> wall_right c}"

definition broken_below :: "maze \<Rightarrow> (int \<times> int) set" where
  "broken_below m = {(x, y). \<exists>c. stored m x y = Some c \<and> \<not> wall_below c}"

definition broken_walls :: "maze \<Rightarrow> nat" where
  "broken_walls m = card (broken_right m) + card (broken_below m)"

text \<open>
  The passages, each directed from the cell that stores the wall to its right or lower
  neighbour; two cells are joined when there is a passage one way or the other.
\<close>

definition edges :: "maze \<Rightarrow> ((int \<times> int) \<times> (int \<times> int)) set" where
  "edges m = (\<lambda>(x, y). ((x, y), (x + 1, y))) ` broken_right m \<union>
             (\<lambda>(x, y). ((x, y), (x, y + 1))) ` broken_below m"

text \<open>The passage that a broken right wall, or a broken bottom wall, of the cell \<open>a\<close> opens.\<close>

definition right_edge :: "int \<times> int \<Rightarrow> (int \<times> int) \<times> (int \<times> int)" where
  "right_edge a = (a, (fst a + 1, snd a))"

definition below_edge :: "int \<times> int \<Rightarrow> (int \<times> int) \<times> (int \<times> int)" where
  "below_edge a = (a, (fst a, snd a + 1))"

definition passage :: "maze \<Rightarrow> int \<times> int \<Rightarrow> int \<times> int \<Rightarrow> bool" where
  "passage m a b \<longleftrightarrow> a \<in> cells m \<and> b \<in> cells m \<and> ((a, b) \<in> edges m \<or> (b, a) \<in> edges m)"

text \<open>
  Connected: any two cells are linked by a chain of passages. A cycle is a list of at
  least three different cells, each joined to the next and the last to the first.
\<close>

definition joined :: "('a \<times> 'a) set \<Rightarrow> 'a \<Rightarrow> 'a \<Rightarrow> bool" where
  "joined E a b \<longleftrightarrow> (a, b) \<in> E \<or> (b, a) \<in> E"

definition linked :: "'a set \<Rightarrow> ('a \<times> 'a) set \<Rightarrow> bool" where
  "linked V E \<longleftrightarrow> (\<forall>a\<in>V. \<forall>b\<in>V. (a, b) \<in> {(u, v). joined E u v}\<^sup>*)"

definition cycle :: "('a \<times> 'a) set \<Rightarrow> 'a list \<Rightarrow> bool" where
  "cycle E p \<longleftrightarrow>
     3 \<le> length p \<and> distinct p \<and>
     (\<forall>i. Suc i < length p \<longrightarrow> joined E (p ! i) (p ! Suc i)) \<and>
     joined E (last p) (hd p)"

definition connected :: "maze \<Rightarrow> bool" where
  "connected m \<longleftrightarrow> (\<forall>a\<in>cells m. \<forall>b\<in>cells m. (a, b) \<in> {(u, v). passage m u v}\<^sup>*)"

definition maze_cycle :: "maze \<Rightarrow> (int \<times> int) list \<Rightarrow> bool" where
  "maze_cycle m p \<longleftrightarrow>
     3 \<le> length p \<and> distinct p \<and>
     (\<forall>i. Suc i < length p \<longrightarrow> passage m (p ! i) (p ! Suc i)) \<and>
     passage m (last p) (hd p)"

definition acyclic_maze :: "maze \<Rightarrow> bool" where
  "acyclic_maze m \<longleftrightarrow> (\<nexists>p. maze_cycle m p)"

text \<open>
  A graph grown from one vertex by hanging, each time, a new vertex on an old one by one
  edge, in either direction.
\<close>

inductive grown :: "'a set \<Rightarrow> ('a \<times> 'a) set \<Rightarrow> bool" where
  grown_one: "grown {v} {}"
| grown_add: "grown V E \<Longrightarrow> u \<in> V \<Longrightarrow> v \<notin> V \<Longrightarrow> e = (u, v) \<or> e = (v, u) \<Longrightarrow>
              grown (insert v V) (insert e E)"

text \<open>Two coordinates are neighbours when they differ by one step in one direction.\<close>

definition nbr :: "int \<times> int \<Rightarrow> int \<times> int \<Rightarrow> bool" where
  "nbr a b \<longleftrightarrow>
     (fst b = fst a - 1 \<and> snd b = snd a) \<or> (fst b = fst a \<and> snd b = snd a - 1) \<or>
     (fst b = fst a + 1 \<and> snd b = snd a) \<or> (fst b = fst a \<and> snd b = snd a + 1)"

subsection \<open>What a run of the carving achieves\<close>

text \<open>
  What a run of the carving loop from the maze \<open>m\<close> over the directions \<open>dirs\<close> has
  achieved in \<open>m'\<close>: the walls are still backed and the bounds kept; no cell is lost; the
  target of every direction exists if it lies within the bounds; every cell created
  during the run has all its neighbours within the bounds; and a passage graph grown as a
  tree has stayed one.
\<close>

definition carved :: "maze \<Rightarrow> ((int \<times> int) \<times> action) list \<Rightarrow> maze \<Rightarrow> bool" where
  "carved m dirs m' \<longleftrightarrow>
     walls_backed m' \<and> max_width m' = max_width m \<and> max_height m' = max_height m \<and>
     cells m \<subseteq> cells m' \<and>
     (\<forall>d\<in>set dirs. in_bounds m (fst (fst d)) (snd (fst d)) \<longrightarrow> fst d \<in> cells m') \<and>
     (\<forall>c\<in>cells m' - cells m. \<forall>n. nbr c n \<longrightarrow> in_bounds m (fst n) (snd n) \<longrightarrow> n \<in> cells m') \<and>
     (grown (cells m) (edges m) \<longrightarrow> grown (cells m') (edges m'))"

section \<open>Termination of the carving\<close>

lemma cellExists_stored: "cellExists m x y \<longleftrightarrow> stored m x y \<noteq> None"
  by (simp add: cellExists_def stored_def split: option.splits)

lemma finite_free: "finite (free m)"
proof -
  have "free m \<subseteq> {0..<max_width m} \<times> {0..<max_height m}"
    by (auto simp: free_def in_bounds_def)
  then show ?thesis by (rule finite_subset) simp
qed

lemma createCell_out: "\<not> in_bounds m x y \<Longrightarrow> createCell m x y = (m, None)"
  by (auto simp: createCell_def in_bounds_def)

lemma createCell_None_same: "createCell m x y = (m1, None) \<Longrightarrow> m1 = m"
  by (auto simp: createCell_def Let_def split: if_splits option.splits)

lemma createCell_in:
  assumes "in_bounds m x y"
  shows "snd (createCell m x y) = Some (Real x y)"
    and "max_width (fst (createCell m x y)) = max_width m"
    and "max_height (fst (createCell m x y)) = max_height m"
    and "stored (fst (createCell m x y)) a b =
          (if a = x \<and> b = y
           then (case stored m x y of None \<Rightarrow> Some (Cell m x y False) | Some c \<Rightarrow> Some c)
           else stored m a b)"
  using assms
  by (auto simp: createCell_def in_bounds_def Let_def stored_def Cell_def split: option.splits)

lemma store_dims [simp]:
  "max_width (store m x y c) = max_width m" "max_height (store m x y c) = max_height m"
  by (auto simp: store_def split: option.splits)

lemma store_keeps: "cellExists m a b \<Longrightarrow> cellExists (store m x y c) a b"
  by (auto simp: store_def cellExists_def split: option.splits)

lemma apply_action_dims [simp]:
  "max_width (fst (apply_action act m c n)) = max_width m"
  "max_height (fst (apply_action act m c n)) = max_height m"
  by (cases act; simp add: breakWallRight_def breakWallBelow_def Let_def)+

lemma apply_action_keeps:
  "cellExists m a b \<Longrightarrow> cellExists (fst (apply_action act m c n)) a b"
  by (cases act; simp add: breakWallRight_def breakWallBelow_def Let_def store_keeps)

lemma free_apply_action: "free (fst (apply_action act m c n)) \<subseteq> free m"
  by (auto simp: free_def in_bounds_def dest: apply_action_keeps)

lemma free_createCell:
  assumes "createCell m x y = (m1, Some nc)" "\<not> cellExists m x y"
  shows "free m1 \<subset> free m"
proof -
  have ib: "in_bounds m x y" using assms(1) createCell_out by fastforce
  have m1: "m1 = fst (createCell m x y)" using assms(1) by simp
  have "(x, y) \<in> free m" using ib assms(2) by (simp add: free_def)
  moreover have "(x, y) \<notin> free m1"
    by (simp add: free_def m1 cellExists_stored createCell_in(4)[OF ib] split: option.splits)
  moreover have "free m1 \<subseteq> free m"
    by (auto simp: free_def m1 in_bounds_def cellExists_stored createCell_in[OF ib]
             split: if_splits option.splits)
  ultimately show ?thesis by blast
qed

lemma loop_dom_free:
  "recursivePopulate_loop_dom (m, g, cell, dirs) \<Longrightarrow>
   free (fst (recursivePopulate_loop m g cell dirs)) \<subseteq> free m"
proof (induction m g cell dirs rule: recursivePopulate_loop.pinduct)
  case (1 m g cell)
  then show ?case by (simp add: recursivePopulate_loop.psimps)
next
  case (2 m g cell dir dirs)
  show ?case
  proof (cases "cellExists m (fst (fst dir)) (snd (fst dir))")
    case True
    then show ?thesis using 2 by (simp add: recursivePopulate_loop.psimps)
  next
    case False
    obtain m1 r where cc: "createCell m (fst (fst dir)) (snd (fst dir)) = (m1, r)"
      by (cases "createCell m (fst (fst dir)) (snd (fst dir))")
    show ?thesis
    proof (cases r)
      case None
      then have "m1 = m" using cc by (auto simp: createCell_def Let_def split: if_splits option.splits)
      then show ?thesis using 2(1) 2(2)[OF False cc[symmetric]] None cc False
        by (simp add: recursivePopulate_loop.psimps)
    next
      case (Some nc)
      define m2 where "m2 = fst (apply_action (snd dir) m1 cell nc)"
      obtain order g1 where sm: "sample g (directions nc) 4 = (order, g1)"
        by (cases "sample g (directions nc) 4")
      obtain m3 g2 where rc: "recursivePopulate_loop m2 g1 nc order = (m3, g2)"
        by (cases "recursivePopulate_loop m2 g1 nc order")
      have a: "free m3 \<subseteq> free m2"
        using 2(3)[OF False cc[symmetric] Some m2_def sm[symmetric] refl] rc by simp
      have b: "free (fst (recursivePopulate_loop m3 g2 cell dirs)) \<subseteq> free m3"
        using 2(4)[OF False cc[symmetric] Some m2_def sm[symmetric] refl rc[symmetric] refl] by simp
      have c: "free m2 \<subseteq> free m1" unfolding m2_def by (rule free_apply_action)
      have d: "free m1 \<subset> free m" using free_createCell cc Some False by blast
      have "recursivePopulate_loop m g cell (dir # dirs) = recursivePopulate_loop m3 g2 cell dirs"
        using 2(1) False cc Some sm rc by (simp add: recursivePopulate_loop.psimps m2_def Let_def)
      then show ?thesis using a b c d by auto
    qed
  qed
qed

termination recursivePopulate_loop
proof (relation "inv_image (finite_psubset <*lex*> measure length) (\<lambda>(m, g, cell, dirs). (free m, dirs))", goal_cases)
  case 1
  then show ?case by (intro wf_inv_image wf_lex_prod wf_finite_psubset wf_measure)
next
  case (2 m g cell dir dirs x1 x2)
  then show ?case using createCell_None_same[of m "fst (fst dir)" "snd (fst dir)" x1] by simp
next
  case (3 m g cell dir dirs x1 x2 nc m2 xa order g1)
  then show ?case 
    using free_createCell[of m "fst (fst dir)" "snd (fst dir)" x1 nc, OF sym] free_apply_action[of "snd dir" x1 cell nc]
    by (auto simp: finite_free finite_psubset_def)
next
  case (4 m g cell dir dirs x1 x2 nc m2 xa order g1 xb m3 g2)
  have a: "free x1 \<subset> free m"
    using free_createCell[of m "fst (fst dir)" "snd (fst dir)" x1 nc] 4 by simp
  have b: "free m2 \<subseteq> free x1"
    using free_apply_action[of "snd dir" x1 cell nc] 4 by simp
  have "m3 = fst (recursivePopulate_loop m2 g1 nc order)"
    using 4 by (metis fst_conv)
  moreover have "recursivePopulate_loop_dom (m2, g1, nc, order)" using 4 by simp
  ultimately have c: "free m3 \<subseteq> free m2"
    using loop_dom_free by simp
  have "free m3 \<subset> free m" using a b c by blast
  then show ?case by (simp add: finite_free finite_psubset_def)
next
  case (5 m g cell dir dirs)
  then show ?case by simp
qed


section \<open>Basic facts\<close>

subsection \<open>The sampled order is a permutation\<close>

lemma pick_numeral:
  "pick (numeral n) k xs =
     (if xs = [] then []
      else xs ! (k mod length xs) #
           pick (pred_numeral n) (k div length xs)
             (take (k mod length xs) xs @ drop (Suc (k mod length xs)) xs))"
  by (simp add: numeral_eq_Suc Let_def)

lemma set_without_nth:
  assumes "i < length xs"
  shows "insert (xs ! i) (set (take i xs @ drop (Suc i) xs)) = set xs"
proof -
  have "xs = take i xs @ xs ! i # drop (Suc i) xs"
    using assms by (simp add: id_take_nth_drop)
  then have "set xs = set (take i xs @ xs ! i # drop (Suc i) xs)" by simp
  then show ?thesis by simp
qed

lemma set_pick: "length xs \<le> n \<Longrightarrow> set (pick n k xs) = set xs"
proof (induction n arbitrary: k xs)
  case 0
  then show ?case by simp
next
  case (Suc n)
  show ?case
  proof (cases "xs = []")
    case True
    then show ?thesis by simp
  next
    case False
    define i where "i = k mod length xs"
    define rest where "rest = take i xs @ drop (Suc i) xs"
    have i: "i < length xs" using False by (simp add: i_def)
    have "length rest \<le> n" using Suc.prems i by (simp add: rest_def)
    then have "set (pick n (k div length xs) rest) = set rest"
      by (rule Suc.IH)
    then show ?thesis using False set_without_nth[OF i]
      by (simp add: i_def rest_def Let_def)
  qed
qed

lemma set_sample: "set (fst (sample g (directions c) 4)) = set (directions c)"
  by (simp add: sample_def set_pick directions_def)

text \<open>
  Conversely every order of the four directions is the sample of some generator, so the
  model leaves out no run of the program.
\<close>

lemma distinct_without_nth:
  assumes "distinct xs" "i < length xs"
  shows "distinct (take i xs @ drop (Suc i) xs)" "xs ! i \<notin> set (take i xs @ drop (Suc i) xs)"
proof -
  have "xs = take i xs @ xs ! i # drop (Suc i) xs"
    using assms(2) by (simp add: id_take_nth_drop)
  then have "distinct (take i xs @ xs ! i # drop (Suc i) xs)" using assms(1) by simp
  then show "distinct (take i xs @ drop (Suc i) xs)"
    "xs ! i \<notin> set (take i xs @ drop (Suc i) xs)" by auto
qed

lemma pick_onto:
  "distinct xs \<Longrightarrow> distinct ys \<Longrightarrow> set ys = set xs \<Longrightarrow> \<exists>k. pick (length xs) k xs = ys"
proof (induction ys arbitrary: xs)
  case Nil
  then show ?case by simp
next
  case (Cons y ys)
  have "y \<in> set xs" using Cons.prems(3) by auto
  then obtain i where i: "i < length xs" "xs ! i = y" by (auto simp: in_set_conv_nth)
  define rest where "rest = take i xs @ drop (Suc i) xs"
  have dr: "distinct rest" and nr: "y \<notin> set rest"
    using distinct_without_nth[OF Cons.prems(1) i(1)] i(2) by (simp_all add: rest_def)
  have "insert y (set rest) = set xs" using set_without_nth[OF i(1)] i(2) by (simp add: rest_def)
  then have sr: "set ys = set rest" using Cons.prems(2,3) nr by auto
  have lr: "length xs = Suc (length rest)" using i(1) by (simp add: rest_def)
  obtain k' where k': "pick (length rest) k' rest = ys"
    using Cons.IH[OF dr _ sr] Cons.prems(2) by auto
  define k where "k = i + length xs * k'"
  have km: "k mod length xs = i" using i(1) by (simp add: k_def)
  have "k div length xs = i div length xs + k'"
    unfolding k_def using i(1) by (subst div_mult_self2) auto
  then have kd: "k div length xs = k'" using i(1) by simp
  have ne: "xs \<noteq> []" using i(1) by auto
  have "pick (length xs) k xs = y # ys"
    unfolding lr using ne km kd k' i(2) by (simp add: Let_def lr[symmetric] rest_def)
  then show ?case by blast
qed

lemma sample_onto:
  assumes "distinct ys" "set ys = set (directions c)"
  shows "\<exists>g. fst (sample g (directions c) 4) = ys"
proof -
  have d: "distinct (directions c)" by (simp add: directions_def)
  have l: "length (directions c) = 4" by (simp add: directions_def)
  obtain k where "pick 4 k (directions c) = ys"
    using pick_onto[OF d assms] l by auto
  then have "fst (sample (fixed_rng k) (directions c) 4) = ys"
    by (simp add: sample_def fixed_rng_def)
  then show ?thesis by blast
qed


subsection \<open>What every step of the carving preserves\<close>

lemma loop_preserves:
  assumes c: "\<And>m x y. P m \<Longrightarrow> P (fst (createCell m x y))"
      and a: "\<And>m act c n. P m \<Longrightarrow> P (fst (apply_action act m c n))"
  shows "P m \<Longrightarrow> P (fst (recursivePopulate_loop m g cell dirs))"
proof (induction m g cell dirs rule: recursivePopulate_loop.induct)
  case (1 m g cell)
  then show ?case by simp
next
  case (2 m g cell dir dirs)
  show ?case
  proof (cases "cellExists m (fst (fst dir)) (snd (fst dir))")
    case True
    then show ?thesis using 2 by simp
  next
    case False
    obtain m1 r where cc: "createCell m (fst (fst dir)) (snd (fst dir)) = (m1, r)"
      by (cases "createCell m (fst (fst dir)) (snd (fst dir))")
    have P1: "P m1" using c[OF "2.prems", of "fst (fst dir)" "snd (fst dir)"] cc by simp
    show ?thesis
    proof (cases r)
      case None
      show ?thesis using "2.IH"(1)[OF False cc[symmetric] None P1] None cc False by simp
    next
      case (Some nc)
      define m2 where "m2 = fst (apply_action (snd dir) m1 cell nc)"
      obtain order g1 where sm: "sample g (directions nc) 4 = (order, g1)"
        by (cases "sample g (directions nc) 4")
      obtain m3 g2 where rc: "recursivePopulate_loop m2 g1 nc order = (m3, g2)"
        by (cases "recursivePopulate_loop m2 g1 nc order")
      have P2: "P m2" unfolding m2_def by (rule a[OF P1])
      have P3: "P m3"
        using "2.IH"(2)[OF False cc[symmetric] Some m2_def sm[symmetric] refl P2] rc by simp
      have P4: "P (fst (recursivePopulate_loop m3 g2 cell dirs))"
        using "2.IH"(3)[OF False cc[symmetric] Some m2_def sm[symmetric] refl rc[symmetric] refl P3] .
      have "recursivePopulate_loop m g cell (dir # dirs) = recursivePopulate_loop m3 g2 cell dirs"
        using False cc Some sm rc by (simp add: m2_def Let_def)
      then show ?thesis using P4 by simp
    qed
  qed
qed

lemma populateFrom_preserves:
  assumes c: "\<And>m x y. P m \<Longrightarrow> P (fst (createCell m x y))"
      and a: "\<And>m act c n. P m \<Longrightarrow> P (fst (apply_action act m c n))"
      and P: "P m" and pf: "populateFrom m g x y = Inr ((m', g'), b)"
  shows "P m'"
proof (cases "cellExists m x y")
  case True
  then show ?thesis using pf P by (simp add: populateFrom_def)
next
  case False
  obtain m1 r where cc: "createCell m x y = (m1, r)" by (cases "createCell m x y")
  have P1: "P m1" using c[OF P, of x y] cc by simp
  show ?thesis
  proof (cases r)
    case None
    then show ?thesis using pf False cc by (simp add: populateFrom_def recursivePopulate_def)
  next
    case (Some nc)
    obtain order g1 where sm: "sample g (directions nc) 4 = (order, g1)"
      by (cases "sample g (directions nc) 4")
    have "m' = fst (recursivePopulate_loop m1 g1 nc order)"
      using pf False cc Some sm
      by (auto simp: populateFrom_def recursivePopulate_def split: prod.splits)
    then show ?thesis using loop_preserves[of P, OF c a P1] by simp
  qed
qed


subsection \<open>What the basic operations do to the stored cells\<close>

lemma cells_iff: "(x, y) \<in> cells m \<longleftrightarrow> cellExists m x y"
  by (simp add: cells_def)

lemma stored_store:
  "stored (store m x y c) a b =
     (if a = x \<and> b = y \<and> stored m x y \<noteq> None then Some c else stored m a b)"
  by (auto simp: stored_def store_def split: option.splits)

lemma store_bbox [simp]:
  "min_x (store m x y c) = min_x m" "max_x (store m x y c) = max_x m"
  "min_y (store m x y c) = min_y m" "max_y (store m x y c) = max_y m"
  by (auto simp: store_def split: option.splits)

lemma cellExists_store [simp]: "cellExists (store m x y c) a b = cellExists m a b"
  by (auto simp: cellExists_stored stored_store)

lemma breakWallRight_frame [simp]:
  "max_width (fst (breakWallRight m r)) = max_width m"
  "max_height (fst (breakWallRight m r)) = max_height m"
  "min_x (fst (breakWallRight m r)) = min_x m" "max_x (fst (breakWallRight m r)) = max_x m"
  "min_y (fst (breakWallRight m r)) = min_y m" "max_y (fst (breakWallRight m r)) = max_y m"
  "cellExists (fst (breakWallRight m r)) a b = cellExists m a b"
  by (simp_all add: breakWallRight_def Let_def)

lemma breakWallBelow_frame [simp]:
  "max_width (fst (breakWallBelow m r)) = max_width m"
  "max_height (fst (breakWallBelow m r)) = max_height m"
  "min_x (fst (breakWallBelow m r)) = min_x m" "max_x (fst (breakWallBelow m r)) = max_x m"
  "min_y (fst (breakWallBelow m r)) = min_y m" "max_y (fst (breakWallBelow m r)) = max_y m"
  "cellExists (fst (breakWallBelow m r)) a b = cellExists m a b"
  by (simp_all add: breakWallBelow_def Let_def)

lemma apply_action_frame [simp]:
  "min_x (fst (apply_action act m c n)) = min_x m" "max_x (fst (apply_action act m c n)) = max_x m"
  "min_y (fst (apply_action act m c n)) = min_y m" "max_y (fst (apply_action act m c n)) = max_y m"
  "cellExists (fst (apply_action act m c n)) a b = cellExists m a b"
  by (cases act; simp)+

lemma createCell_dims [simp]:
  "max_width (fst (createCell m x y)) = max_width m"
  "max_height (fst (createCell m x y)) = max_height m"
  by (cases "in_bounds m x y"; simp add: createCell_in createCell_out)+

lemma createCell_bbox:
  assumes "in_bounds m x y"
  shows "min_x (fst (createCell m x y)) = lower (min_x m) x"
    and "max_x (fst (createCell m x y)) = raise (max_x m) x"
    and "min_y (fst (createCell m x y)) = lower (min_y m) y"
    and "max_y (fst (createCell m x y)) = raise (max_y m) y"
  using assms
  by (auto simp: createCell_def in_bounds_def Let_def split: option.splits)

lemma cellExists_createCell:
  "cellExists (fst (createCell m x y)) a b \<longleftrightarrow>
     cellExists m a b \<or> (a = x \<and> b = y \<and> in_bounds m x y)"
  by (cases "in_bounds m x y")
     (auto simp: createCell_out cellExists_stored createCell_in split: option.splits)

subsection \<open>Invariants of every reachable state\<close>

text \<open>Every stored cell lies within the bounds and within the bounding box.\<close>

lemma reachable_induct_ops:
  assumes r: "reachable m"
      and i: "\<And>w h. P (Maze w h)"
      and c: "\<And>m x y. P m \<Longrightarrow> P (fst (createCell m x y))"
      and a: "\<And>m act c n. P m \<Longrightarrow> P (fst (apply_action act m c n))"
  shows "P m"
  using r
proof (induction rule: reachable.induct)
  case (reachable_init w h)
  show ?case by (rule i)
next
  case (reachable_create m x y)
  then show ?case by (simp add: c)
next
  case (reachable_populate m g x y m' g' b)
  then show ?case using populateFrom_preserves[of P, OF c a] by blast
next
  case (reachable_breakRight m x y)
  then show ?case using a[of m ArgBreakWallRight undefined "getCell m x y"] by simp
next
  case (reachable_breakBelow m x y)
  then show ?case using a[of m ArgBreakWallBelow undefined "getCell m x y"] by simp
qed

lemma reachable_in_bounds:
  assumes "reachable m" "cellExists m x y"
  shows "in_bounds m x y"
proof -
  have "\<forall>x y. cellExists m x y \<longrightarrow> in_bounds m x y"
    using assms(1)
  proof (rule reachable_induct_ops)
    fix w h show "\<forall>x y. cellExists (Maze w h) x y \<longrightarrow> in_bounds (Maze w h) x y"
      by (simp add: Maze_def cellExists_def)
  next
    fix m x y assume "\<forall>x y. cellExists m x y \<longrightarrow> in_bounds m x y"
    then show "\<forall>a b. cellExists (fst (createCell m x y)) a b \<longrightarrow> in_bounds (fst (createCell m x y)) a b"
      by (auto simp: cellExists_createCell in_bounds_def)
  next
    fix m act c n assume "\<forall>x y. cellExists m x y \<longrightarrow> in_bounds m x y"
    then show "\<forall>x y. cellExists (fst (apply_action act m c n)) x y \<longrightarrow>
                     in_bounds (fst (apply_action act m c n)) x y"
      by (simp add: in_bounds_def)
  qed
  then show ?thesis using assms(2) by blast
qed

lemma in_bbox_createCell:
  assumes "in_bounds m x y"
  shows "in_bbox (fst (createCell m x y)) x y"
    and "in_bbox m a b \<Longrightarrow> in_bbox (fst (createCell m x y)) a b"
  by (auto simp: in_bbox_def createCell_bbox[OF assms] lower_def raise_def split: option.splits)

lemma reachable_in_bbox:
  assumes "reachable m" "cellExists m x y"
  shows "in_bbox m x y"
proof -
  have "\<forall>x y. cellExists m x y \<longrightarrow> in_bbox m x y"
    using assms(1)
  proof (rule reachable_induct_ops)
    fix w h show "\<forall>x y. cellExists (Maze w h) x y \<longrightarrow> in_bbox (Maze w h) x y"
      by (simp add: Maze_def cellExists_def)
  next
    fix m x y assume "\<forall>x y. cellExists m x y \<longrightarrow> in_bbox m x y"
    then show "\<forall>a b. cellExists (fst (createCell m x y)) a b \<longrightarrow> in_bbox (fst (createCell m x y)) a b"
      by (cases "in_bounds m x y")
         (auto simp: cellExists_createCell in_bbox_createCell createCell_out)
  next
    fix m act c n assume "\<forall>x y. cellExists m x y \<longrightarrow> in_bbox m x y"
    then show "\<forall>x y. cellExists (fst (apply_action act m c n)) x y \<longrightarrow>
                     in_bbox (fst (apply_action act m c n)) x y"
      by (simp add: in_bbox_def)
  qed
  then show ?thesis using assms(2) by blast
qed

lemma reachable_empty_bbox:
  assumes "reachable m"
  shows "cells m = {} \<longrightarrow> min_y m = None"
  using assms
proof (rule reachable_induct_ops)
  fix w h show "cells (Maze w h) = {} \<longrightarrow> min_y (Maze w h) = None"
    by (simp add: Maze_def)
next
  fix m x y assume "cells m = {} \<longrightarrow> min_y m = None"
  then show "cells (fst (createCell m x y)) = {} \<longrightarrow> min_y (fst (createCell m x y)) = None"
    by (cases "in_bounds m x y") (auto simp: cells_def cellExists_createCell createCell_out)
next
  fix m act c n assume "cells m = {} \<longrightarrow> min_y m = None"
  then show "cells (fst (apply_action act m c n)) = {} \<longrightarrow> min_y (fst (apply_action act m c n)) = None"
    by (simp add: cells_def)
qed



subsection \<open>The constructor and the lookup\<close>

lemma Maze_fields [simp]:
  "max_width (Maze w h) = w" "max_height (Maze w h) = h"
  "min_x (Maze w h) = None" "max_x (Maze w h) = None"
  "min_y (Maze w h) = None" "max_y (Maze w h) = None"
  "cellExists (Maze w h) x y = False" "stored (Maze w h) x y = None"
  by (simp_all add: Maze_def cellExists_def stored_def)

lemma getCell_cases:
  "getCell m x y = (if in_bounds m x y \<and> cellExists m x y then Real x y else Transient (Cell m x y True))"
  by (auto simp: getCell_def in_bounds_def cellExists_def split: option.splits)

subsection \<open>The three ways through \<^verbatim>\<open>populateFrom\<close>\<close>

lemma loop_nothing_to_do:
  "\<forall>d\<in>set dirs. cellExists m (fst (fst d)) (snd (fst d)) \<or> \<not> in_bounds m (fst (fst d)) (snd (fst d)) \<Longrightarrow>
   recursivePopulate_loop m g cell dirs = (m, g)"
  by (induction dirs) (auto simp: createCell_out)

lemma populateFrom_exists: "cellExists m x y \<Longrightarrow> populateFrom m g x y = Inr ((m, g), False)"
  by (simp add: populateFrom_def)

lemma populateFrom_out:
  "\<not> cellExists m x y \<Longrightarrow> \<not> in_bounds m x y \<Longrightarrow> populateFrom m g x y = Inl AttributeError"
  by (simp add: populateFrom_def createCell_out recursivePopulate_def)

lemma populateFrom_in:
  assumes "\<not> cellExists m x y" "in_bounds m x y"
  shows "populateFrom m g x y =
           Inr (recursivePopulate_loop (fst (createCell m x y)) (\<lambda>n. g (Suc n)) (Real x y)
                  (pick 4 (g 0) (directions (Real x y))), True)"
proof -
  define m1 where "m1 = fst (createCell m x y)"
  have cc: "createCell m x y = (m1, Some (Real x y))"
    unfolding m1_def using createCell_in(1)[OF assms(2)] by (metis prod.collapse)
  obtain m2 g2 where l: "recursivePopulate_loop m1 (\<lambda>n. g (Suc n)) (Real x y)
                  (pick 4 (g 0) (directions (Real x y))) = (m2, g2)"
    by (metis prod.collapse)
  show ?thesis using assms(1) cc l
    by (simp add: populateFrom_def recursivePopulate_def sample_def m1_def[symmetric])
qed


section \<open>Graphs grown by hanging one vertex at a time\<close>

lemma grown_basic: "grown V E \<Longrightarrow> finite V \<and> finite E \<and> E \<subseteq> V \<times> V \<and> V \<noteq> {}"
  by (induction rule: grown.induct) auto

lemma grown_card: "grown V E \<Longrightarrow> card V = Suc (card E)"
proof (induction rule: grown.induct)
  case (grown_one v)
  then show ?case by simp
next
  case (grown_add V E u v e)
  have b: "finite V" "finite E" "E \<subseteq> V \<times> V" using grown_basic[OF grown_add.hyps(1)] by auto
  have "e \<notin> E" using b(3) grown_add.hyps(3,4) by auto
  then show ?case using b grown_add by simp
qed

lemma joined_sym: "joined E a b \<Longrightarrow> joined E b a"
  by (auto simp: joined_def)

lemma joined_mono: "joined E a b \<Longrightarrow> joined (insert e E) a b"
  by (auto simp: joined_def)

lemma joined_rtrancl_sym:
  "(a, b) \<in> {(u, v). joined E u v}\<^sup>* \<Longrightarrow> (b, a) \<in> {(u, v). joined E u v}\<^sup>*"
proof (induction rule: rtrancl_induct)
  case base
  then show ?case by simp
next
  case (step y z)
  have "(z, y) \<in> {(u, v). joined E u v}" using step.hyps(2) joined_sym by fastforce
  then show ?case using step.IH by (meson converse_rtrancl_into_rtrancl)
qed

lemma joined_rtrancl_mono:
  assumes "(a, b) \<in> {(u, v). joined E u v}\<^sup>*"
  shows "(a, b) \<in> {(u, v). joined (insert e E) u v}\<^sup>*"
proof -
  have "{(u, v). joined E u v} \<subseteq> {(u, v). joined (insert e E) u v}"
    by (auto simp: joined_def)
  from rtrancl_mono[OF this] assms show ?thesis by (rule subsetD)
qed

lemma grown_linked: "grown V E \<Longrightarrow> linked V E"
proof (induction rule: grown.induct)
  case (grown_one v)
  then show ?case by (simp add: linked_def)
next
  case (grown_add V E u v e)
  let ?R = "{(a, b). joined (insert e E) a b}"
  have uv: "(u, v) \<in> ?R" "(v, u) \<in> ?R" using grown_add.hyps(4) by (auto simp: joined_def)
  have old: "(a, b) \<in> ?R\<^sup>*" if "a \<in> V" "b \<in> V" for a b
  proof -
    have "(a, b) \<in> {(u, v). joined E u v}\<^sup>*"
      using grown_add.IH that by (simp add: linked_def)
    then show ?thesis by (rule joined_rtrancl_mono)
  qed
  have to_v: "(a, v) \<in> ?R\<^sup>*" if "a \<in> V" for a
    using old[OF that grown_add.hyps(2)] uv(1) by (rule rtrancl.rtrancl_into_rtrancl)
  have from_v: "(v, b) \<in> ?R\<^sup>*" if "b \<in> V" for b
    using uv(2) old[OF grown_add.hyps(2) that] by (rule converse_rtrancl_into_rtrancl)
  show ?case
    unfolding linked_def
  proof (intro ballI)
    fix a b assume ab: "a \<in> insert v V" "b \<in> insert v V"
    show "(a, b) \<in> ?R\<^sup>*"
    proof (cases "a = v")
      case True
      show ?thesis
      proof (cases "b = v")
        case True
        then show ?thesis using \<open>a = v\<close> by simp
      next
        case False
        then show ?thesis using ab(2) from_v \<open>a = v\<close> by simp
      qed
    next
      case False
      then have a: "a \<in> V" using ab(1) by simp
      show ?thesis
      proof (cases "b = v")
        case True
        then show ?thesis using to_v[OF a] by simp
      next
        case False
        then show ?thesis using ab(2) old[OF a] by simp
      qed
    qed
  qed
qed

lemma cycle_steps:
  assumes "cycle E p" "i < length p"
  shows "joined E (p ! i) (p ! (if Suc i < length p then Suc i else 0))"
proof (cases "Suc i < length p")
  case True
  then show ?thesis using assms(1) by (simp add: cycle_def)
next
  case False
  then have i: "i = length p - 1" using assms(2) by simp
  have ne: "p \<noteq> []" using assms(2) by auto
  have "joined E (last p) (hd p)" using assms(1) by (simp add: cycle_def)
  then show ?thesis using False i ne by (simp add: last_conv_nth hd_conv_nth)
qed

lemma grown_no_cycle: "grown V E \<Longrightarrow> \<not> cycle E p"
proof (induction arbitrary: p rule: grown.induct)
  case (grown_one v)
  show ?case
  proof
    assume c: "cycle {} p"
    then have "0 < length p" by (auto simp: cycle_def)
    then show False using cycle_steps[OF c, of 0] by (simp add: joined_def)
  qed
next
  case (grown_add V E u v e)
  have sub: "E \<subseteq> V \<times> V" using grown_basic[OF grown_add.hyps(1)] by simp
  have only_u: "\<And>x. joined (insert e E) v x \<Longrightarrow> x = u"
    using sub grown_add.hyps(2,3,4) by (auto simp: joined_def)
  have old: "\<And>a b. joined (insert e E) a b \<Longrightarrow> a \<noteq> v \<Longrightarrow> b \<noteq> v \<Longrightarrow> joined E a b"
    using grown_add.hyps(4) by (auto simp: joined_def)
  show ?case
  proof
    assume c: "cycle (insert e E) p"
    define n where "n = length p"
    have n3: "3 \<le> n" and dist: "distinct p" using c by (simp_all add: cycle_def n_def)
    show False
    proof (cases "v \<in> set p")
      case False
      have "cycle E p"
        unfolding cycle_def
      proof (intro conjI allI impI)
        show "3 \<le> length p" using n3 by (simp add: n_def)
        show "distinct p" by (rule dist)
        show "joined E (last p) (hd p)"
        proof (rule old)
          show "joined (insert e E) (last p) (hd p)" using c by (simp add: cycle_def)
          have "p \<noteq> []" using n3 by (auto simp: n_def)
          then show "last p \<noteq> v" "hd p \<noteq> v" using False by auto
        qed
      next
        fix i assume i: "Suc i < length p"
        show "joined E (p ! i) (p ! Suc i)"
        proof (rule old)
          show "joined (insert e E) (p ! i) (p ! Suc i)" using c i by (simp add: cycle_def)
          show "p ! i \<noteq> v" "p ! Suc i \<noteq> v" using False i by (auto simp: in_set_conv_nth)
        qed
      qed
      then show False using grown_add.IH by blast
    next
      case True
      then obtain i where i: "i < n" "p ! i = v" by (auto simp: in_set_conv_nth n_def)
      define s where "s = (if Suc i < n then Suc i else 0)"
      define q where "q = (if i = 0 then n - 1 else i - 1)"
      have s: "s < n" and q: "q < n" using n3 i(1) by (auto simp: s_def q_def)
      have qs: "(if Suc q < n then Suc q else 0) = i" using i(1) n3 by (auto simp: q_def)
      have "joined (insert e E) (p ! i) (p ! s)"
        using cycle_steps[OF c, of i] i(1) by (simp add: n_def s_def)
      then have ps: "p ! s = u" using only_u i(2) by simp
      have "joined (insert e E) (p ! q) (p ! i)"
        using cycle_steps[OF c, of q] q qs by (simp add: n_def)
      then have pq: "p ! q = u" using only_u i(2) joined_sym by metis
      have "p ! s = p ! q" using ps pq by simp
      then have "s = q" using dist s q by (simp add: nth_eq_iff_index_eq n_def)
      then show False using n3 i(1) by (auto simp: s_def q_def split: if_splits)
    qed
  qed
qed

section \<open>One step of the carving\<close>

lemma stored_breakWallRight:
  "stored (fst (breakWallRight m (Real x y))) a b =
     (if a = x \<and> b = y
      then (case stored m x y of
              None \<Rightarrow> None
            | Some c \<Rightarrow> if empty c then Some c else Some (c\<lparr>wall_right := False\<rparr>))
      else stored m a b)"
  by (auto simp: breakWallRight_def Let_def stored_store Cell_def split: option.splits)

lemma stored_breakWallBelow:
  "stored (fst (breakWallBelow m (Real x y))) a b =
     (if a = x \<and> b = y
      then (case stored m x y of
              None \<Rightarrow> None
            | Some c \<Rightarrow> if empty c then Some c else Some (c\<lparr>wall_below := False\<rparr>))
      else stored m a b)"
  by (auto simp: breakWallBelow_def Let_def stored_store Cell_def split: option.splits)

lemma stored_createCell_new:
  assumes "in_bounds m x y" "\<not> cellExists m x y"
  shows "stored (fst (createCell m x y)) a b =
     (if a = x \<and> b = y
      then Some \<lparr>cx = x, cy = y, empty = False, wall_below = True, wall_right = True\<rparr>
      else stored m a b)"
  using assms by (simp add: createCell_in(4) cellExists_stored Cell_def)

lemma walls_backed_update:
  assumes wb: "walls_backed m"
      and mono: "\<And>a b. cellExists m a b \<Longrightarrow> cellExists m2 a b"
      and st: "\<And>a b c. stored m2 a b = Some c \<Longrightarrow>
                 stored m a b = Some c \<or>
                 (\<not> empty c \<and> (\<not> wall_right c \<longrightarrow> cellExists m2 (a + 1) b) \<and>
                  (\<not> wall_below c \<longrightarrow> cellExists m2 a (b + 1)))"
  shows "walls_backed m2"
  unfolding walls_backed_def
proof (intro allI impI)
  fix a b c assume s: "stored m2 a b = Some c"
  show "\<not> empty c \<and> (\<not> wall_right c \<longrightarrow> cellExists m2 (a + 1) b) \<and>
        (\<not> wall_below c \<longrightarrow> cellExists m2 a (b + 1))"
  proof (cases "stored m a b = Some c")
    case True
    then show ?thesis using wb mono unfolding walls_backed_def by blast
  next
    case False
    then show ?thesis using st[OF s] by blast
  qed
qed

text \<open>The new neighbour lies to the left: its right wall goes.\<close>

lemma step_left:
  assumes wb: "walls_backed m" and ex: "cellExists m u v"
      and ib: "in_bounds m (u - 1) v" and ne: "\<not> cellExists m (u - 1) v"
  defines "m2 \<equiv> fst (breakWallRight (fst (createCell m (u - 1) v)) (Real (u - 1) v))"
  shows "walls_backed m2" and "edges m2 = insert ((u - 1, v), (u, v)) (edges m)"
proof -
  have st: "stored m2 a b =
     (if a = u - 1 \<and> b = v
      then Some \<lparr>cx = u - 1, cy = v, empty = False, wall_below = True, wall_right = False\<rparr>
      else stored m a b)" for a b
    by (simp add: m2_def stored_breakWallRight stored_createCell_new[OF ib ne])
  have none: "stored m (u - 1) v = None" using ne by (simp add: cellExists_stored)
  have ce2: "cellExists m2 a b \<longleftrightarrow> cellExists m a b \<or> (a, b) = (u - 1, v)" for a b
    using none by (auto simp: cellExists_stored st)
  show "walls_backed m2"
  proof (rule walls_backed_update[OF wb])
    fix a b c assume "stored m2 a b = Some c"
    then show "stored m a b = Some c \<or>
                 (\<not> empty c \<and> (\<not> wall_right c \<longrightarrow> cellExists m2 (a + 1) b) \<and>
                  (\<not> wall_below c \<longrightarrow> cellExists m2 a (b + 1)))"
      using ex by (auto simp: st ce2 split: if_splits)
  qed (simp add: ce2)
  have r: "broken_right m2 = insert (u - 1, v) (broken_right m)"
    using none by (auto simp: broken_right_def st split: if_splits)
  have b: "broken_below m2 = broken_below m"
    using none by (auto simp: broken_below_def st split: if_splits)
  show "edges m2 = insert ((u - 1, v), (u, v)) (edges m)"
    by (simp add: edges_def r b)
qed

lemma step_above:
  assumes wb: "walls_backed m" and ex: "cellExists m u v"
      and ib: "in_bounds m u (v - 1)" and ne: "\<not> cellExists m u (v - 1)"
  defines "m2 \<equiv> fst (breakWallBelow (fst (createCell m u (v - 1))) (Real u (v - 1)))"
  shows "walls_backed m2" and "edges m2 = insert ((u, v - 1), (u, v)) (edges m)"
proof -
  have st: "stored m2 a b =
     (if a = u \<and> b = v - 1
      then Some \<lparr>cx = u, cy = v - 1, empty = False, wall_below = False, wall_right = True\<rparr>
      else stored m a b)" for a b
    by (simp add: m2_def stored_breakWallBelow stored_createCell_new[OF ib ne])
  have none: "stored m u (v - 1) = None" using ne by (simp add: cellExists_stored)
  have ce2: "cellExists m2 a b \<longleftrightarrow> cellExists m a b \<or> (a, b) = (u, v - 1)" for a b
    using none by (auto simp: cellExists_stored st)
  show "walls_backed m2"
  proof (rule walls_backed_update[OF wb])
    fix a b c assume "stored m2 a b = Some c"
    then show "stored m a b = Some c \<or>
                 (\<not> empty c \<and> (\<not> wall_right c \<longrightarrow> cellExists m2 (a + 1) b) \<and>
                  (\<not> wall_below c \<longrightarrow> cellExists m2 a (b + 1)))"
      using ex by (auto simp: st ce2 split: if_splits)
  qed (simp add: ce2)
  have r: "broken_right m2 = broken_right m"
    using none by (auto simp: broken_right_def st split: if_splits)
  have b: "broken_below m2 = insert (u, v - 1) (broken_below m)"
    using none by (auto simp: broken_below_def st split: if_splits)
  show "edges m2 = insert ((u, v - 1), (u, v)) (edges m)"
    by (simp add: edges_def r b)
qed

lemma step_right:
  assumes wb: "walls_backed m" and ex: "cellExists m u v"
      and ib: "in_bounds m (u + 1) v" and ne: "\<not> cellExists m (u + 1) v"
  defines "m2 \<equiv> fst (breakWallRight (fst (createCell m (u + 1) v)) (Real u v))"
  shows "walls_backed m2" and "edges m2 = insert ((u, v), (u + 1, v)) (edges m)"
proof -
  obtain c where c: "stored m u v = Some c" using ex by (auto simp: cellExists_stored)
  have ce: "\<not> empty c" using wb c by (simp add: walls_backed_def)
  have st: "stored m2 a b =
     (if a = u + 1 \<and> b = v
      then Some \<lparr>cx = u + 1, cy = v, empty = False, wall_below = True, wall_right = True\<rparr>
      else if a = u \<and> b = v then Some (c\<lparr>wall_right := False\<rparr>)
      else stored m a b)" for a b
    by (simp add: m2_def stored_breakWallRight stored_createCell_new[OF ib ne] c ce)
  have none: "stored m (u + 1) v = None" using ne by (simp add: cellExists_stored)
  have ce2: "cellExists m2 a b \<longleftrightarrow> cellExists m a b \<or> (a, b) = (u + 1, v)" for a b
    using none c by (auto simp: cellExists_stored st)
  have cw: "\<not> wall_right c \<longrightarrow> cellExists m (u + 1) v" "\<not> wall_below c \<longrightarrow> cellExists m u (v + 1)"
    using wb c by (auto simp: walls_backed_def)
  show "walls_backed m2"
  proof (rule walls_backed_update[OF wb])
    fix a b c' assume "stored m2 a b = Some c'"
    then show "stored m a b = Some c' \<or>
                 (\<not> empty c' \<and> (\<not> wall_right c' \<longrightarrow> cellExists m2 (a + 1) b) \<and>
                  (\<not> wall_below c' \<longrightarrow> cellExists m2 a (b + 1)))"
      using ce cw by (auto simp: st ce2 split: if_splits)
  qed (simp add: ce2)
  have r: "broken_right m2 = insert (u, v) (broken_right m)"
    using none c by (auto simp: broken_right_def st split: if_splits)
  have b: "broken_below m2 = broken_below m"
    using none c by (auto simp: broken_below_def st split: if_splits)
  show "edges m2 = insert ((u, v), (u + 1, v)) (edges m)"
    by (simp add: edges_def r b)
qed

lemma step_below:
  assumes wb: "walls_backed m" and ex: "cellExists m u v"
      and ib: "in_bounds m u (v + 1)" and ne: "\<not> cellExists m u (v + 1)"
  defines "m2 \<equiv> fst (breakWallBelow (fst (createCell m u (v + 1))) (Real u v))"
  shows "walls_backed m2" and "edges m2 = insert ((u, v), (u, v + 1)) (edges m)"
proof -
  obtain c where c: "stored m u v = Some c" using ex by (auto simp: cellExists_stored)
  have ce: "\<not> empty c" using wb c by (simp add: walls_backed_def)
  have st: "stored m2 a b =
     (if a = u \<and> b = v + 1
      then Some \<lparr>cx = u, cy = v + 1, empty = False, wall_below = True, wall_right = True\<rparr>
      else if a = u \<and> b = v then Some (c\<lparr>wall_below := False\<rparr>)
      else stored m a b)" for a b
    by (simp add: m2_def stored_breakWallBelow stored_createCell_new[OF ib ne] c ce)
  have none: "stored m u (v + 1) = None" using ne by (simp add: cellExists_stored)
  have ce2: "cellExists m2 a b \<longleftrightarrow> cellExists m a b \<or> (a, b) = (u, v + 1)" for a b
    using none c by (auto simp: cellExists_stored st)
  have cw: "\<not> wall_right c \<longrightarrow> cellExists m (u + 1) v" "\<not> wall_below c \<longrightarrow> cellExists m u (v + 1)"
    using wb c by (auto simp: walls_backed_def)
  show "walls_backed m2"
  proof (rule walls_backed_update[OF wb])
    fix a b c' assume "stored m2 a b = Some c'"
    then show "stored m a b = Some c' \<or>
                 (\<not> empty c' \<and> (\<not> wall_right c' \<longrightarrow> cellExists m2 (a + 1) b) \<and>
                  (\<not> wall_below c' \<longrightarrow> cellExists m2 a (b + 1)))"
      using ce cw by (auto simp: st ce2 split: if_splits)
  qed (simp add: ce2)
  have r: "broken_right m2 = broken_right m"
    using none c by (auto simp: broken_right_def st split: if_splits)
  have b: "broken_below m2 = insert (u, v) (broken_below m)"
    using none c by (auto simp: broken_below_def st split: if_splits)
  show "edges m2 = insert ((u, v), (u, v + 1)) (edges m)"
    by (simp add: edges_def r b)
qed

lemma carve_step:
  assumes wb: "walls_backed m" and ex: "cellExists m u v"
      and d: "((tx, ty), act) \<in> set (directions (Real u v))"
      and ib: "in_bounds m tx ty" and ne: "\<not> cellExists m tx ty"
  defines "m2 \<equiv> fst (apply_action act (fst (createCell m tx ty)) (Real u v) (Real tx ty))"
  shows "walls_backed m2"
    and "\<exists>e. edges m2 = insert e (edges m) \<and> (e = ((u, v), (tx, ty)) \<or> e = ((tx, ty), (u, v)))"
proof -
  consider "tx = u - 1 \<and> ty = v \<and> act = ArgBreakWallRight"
    | "tx = u \<and> ty = v - 1 \<and> act = ArgBreakWallBelow"
    | "tx = u + 1 \<and> ty = v \<and> act = CellBreakWallRight"
    | "tx = u \<and> ty = v + 1 \<and> act = CellBreakWallBelow"
    using d by (auto simp: directions_def)
  then have "walls_backed m2 \<and>
    (\<exists>e. edges m2 = insert e (edges m) \<and> (e = ((u, v), (tx, ty)) \<or> e = ((tx, ty), (u, v))))"
  proof cases
    case 1
    then have "walls_backed m2" "edges m2 = insert ((u - 1, v), (u, v)) (edges m)"
      using step_left[OF wb ex] ib ne by (simp_all add: m2_def)
    then show ?thesis using 1 by blast
  next
    case 2
    then have "walls_backed m2" "edges m2 = insert ((u, v - 1), (u, v)) (edges m)"
      using step_above[OF wb ex] ib ne by (simp_all add: m2_def)
    then show ?thesis using 2 by blast
  next
    case 3
    then have "walls_backed m2" "edges m2 = insert ((u, v), (u + 1, v)) (edges m)"
      using step_right[OF wb ex] ib ne by (simp_all add: m2_def)
    then show ?thesis using 3 by blast
  next
    case 4
    then have "walls_backed m2" "edges m2 = insert ((u, v), (u, v + 1)) (edges m)"
      using step_below[OF wb ex] ib ne by (simp_all add: m2_def)
    then show ?thesis using 4 by blast
  qed
  then show "walls_backed m2"
    and "\<exists>e. edges m2 = insert e (edges m) \<and> (e = ((u, v), (tx, ty)) \<or> e = ((tx, ty), (u, v)))"
    by blast+
qed

lemma in_bounds_dims:
  "max_width m' = max_width m \<Longrightarrow> max_height m' = max_height m \<Longrightarrow>
   in_bounds m' x y = in_bounds m x y"
  by (simp add: in_bounds_def)

lemma nbr_directions: "nbr (x, y) n \<longleftrightarrow> n \<in> fst ` set (directions (Real x y))"
  by (cases n) (auto simp: nbr_def directions_def)

lemma carved_frame:
  assumes "carved m dirs m'"
  shows "walls_backed m'" "max_width m' = max_width m" "max_height m' = max_height m"
    "cells m \<subseteq> cells m'"
  using assms unfolding carved_def by blast+

lemma carved_target:
  "carved m dirs m' \<Longrightarrow> d \<in> set dirs \<Longrightarrow> in_bounds m (fst (fst d)) (snd (fst d)) \<Longrightarrow>
   fst d \<in> cells m'"
  unfolding carved_def by blast

lemma carved_closed:
  "carved m dirs m' \<Longrightarrow> c \<in> cells m' \<Longrightarrow> c \<notin> cells m \<Longrightarrow> nbr c n \<Longrightarrow>
   in_bounds m (fst n) (snd n) \<Longrightarrow> n \<in> cells m'"
  unfolding carved_def by blast

lemma carved_grown:
  "carved m dirs m' \<Longrightarrow> grown (cells m) (edges m) \<Longrightarrow> grown (cells m') (edges m')"
  unfolding carved_def by blast

lemma carved_nil: "walls_backed m \<Longrightarrow> carved m [] m"
  by (simp add: carved_def)

lemma carved_skip:
  assumes "carved m dirs m'"
      and "cellExists m (fst (fst dir)) (snd (fst dir)) \<or> \<not> in_bounds m (fst (fst dir)) (snd (fst dir))"
  shows "carved m (dir # dirs) m'"
proof -
  have "in_bounds m (fst (fst dir)) (snd (fst dir)) \<longrightarrow> fst dir \<in> cells m'"
  proof
    assume "in_bounds m (fst (fst dir)) (snd (fst dir))"
    then have "cellExists m (fst (fst dir)) (snd (fst dir))" using assms(2) by blast
    then have "fst dir \<in> cells m" by (simp add: cells_def case_prod_unfold)
    then show "fst dir \<in> cells m'" using carved_frame(4)[OF assms(1)] by blast
  qed
  then show ?thesis using assms(1) unfolding carved_def by simp
qed

lemma carved_descend:
  assumes c2: "cells m2 = insert (tx, ty) (cells m)"
      and dm: "max_width m2 = max_width m" "max_height m2 = max_height m"
      and g2: "grown (cells m) (edges m) \<longrightarrow> grown (cells m2) (edges m2)"
      and a: "carved m2 order m3" and so: "set order = set (directions (Real tx ty))"
      and b: "carved m3 dirs m'"
  shows "carved m (((tx, ty), act) # dirs) m'"
proof -
  have d3: "max_width m3 = max_width m" "max_height m3 = max_height m"
    using carved_frame(2,3)[OF a] dm by simp_all
  have ib3: "in_bounds m3 x y = in_bounds m x y" for x y by (rule in_bounds_dims[OF d3])
  have ib2: "in_bounds m2 x y = in_bounds m x y" for x y by (rule in_bounds_dims[OF dm])
  have s23: "cells m2 \<subseteq> cells m3" and s3: "cells m3 \<subseteq> cells m'"
    using carved_frame(4)[OF a] carved_frame(4)[OF b] by simp_all
  have t: "(tx, ty) \<in> cells m'" using c2 s23 s3 by auto
  have near_t: "n \<in> cells m3" if "nbr (tx, ty) n" "in_bounds m (fst n) (snd n)" for n
  proof -
    have "n \<in> fst ` set order" using that(1) so by (simp add: nbr_directions)
    then obtain d where d: "d \<in> set order" "fst d = n" by (metis imageE)
    have "in_bounds m2 (fst (fst d)) (snd (fst d))" using d(2) that(2) ib2 by simp
    then show ?thesis using carved_target[OF a d(1)] d(2) by simp
  qed
  have closed: "n \<in> cells m'"
    if c: "c \<in> cells m'" "c \<notin> cells m" and n: "nbr c n" "in_bounds m (fst n) (snd n)" for c n
  proof (cases "c \<in> cells m3")
    case False
    have "in_bounds m3 (fst n) (snd n)" using n(2) ib3 by simp
    then show ?thesis using carved_closed[OF b c(1) False n(1)] by simp
  next
    case True
    have "n \<in> cells m3"
    proof (cases "c \<in> cells m2")
      case False
      have "in_bounds m2 (fst n) (snd n)" using n(2) ib2 by simp
      then show ?thesis using carved_closed[OF a True False n(1)] by simp
    next
      case True
      then have "c = (tx, ty)" using c(2) c2 by auto
      then show ?thesis using near_t n by simp
    qed
    then show ?thesis using s3 by auto
  qed
  have rest: "fst d \<in> cells m'" if "d \<in> set dirs" "in_bounds m (fst (fst d)) (snd (fst d))" for d
    using carved_target[OF b that(1)] that(2) ib3 by simp
  have gr: "grown (cells m) (edges m) \<longrightarrow> grown (cells m') (edges m')"
    using g2 carved_grown[OF a] carved_grown[OF b] by blast
  have wb: "walls_backed m'" and dm': "max_width m' = max_width m" "max_height m' = max_height m"
    using carved_frame(1,2,3)[OF b] d3 by simp_all
  have sub: "cells m \<subseteq> cells m'" using c2 s23 s3 by auto
  show ?thesis
    unfolding carved_def
  proof (intro conjI ballI allI impI)
    fix d assume d: "d \<in> set (((tx, ty), act) # dirs)" "in_bounds m (fst (fst d)) (snd (fst d))"
    show "fst d \<in> cells m'"
    proof (cases "d = ((tx, ty), act)")
      case True
      then show ?thesis using t by simp
    next
      case False
      then have "d \<in> set dirs" using d(1) by simp
      then show ?thesis using rest d(2) by blast
    qed
  next
    fix c n assume "c \<in> cells m' - cells m" "nbr c n" "in_bounds m (fst n) (snd n)"
    then show "n \<in> cells m'" using closed by blast
  next
    assume "grown (cells m) (edges m)"
    then show "grown (cells m') (edges m')" using gr by blast
  qed (fact wb dm' sub)+
qed

section \<open>The carving as a whole\<close>

lemma loop_carved:
  assumes "walls_backed m" "\<exists>u v. cell = Real u v \<and> cellExists m u v"
      and "set dirs \<subseteq> set (directions cell)"
  shows "carved m dirs (fst (recursivePopulate_loop m g cell dirs))"
  using assms
proof (induction m g cell dirs rule: recursivePopulate_loop.induct)
  case (1 m g cell)
  then show ?case by (simp add: carved_nil)
next
  case (2 m g cell dir dirs)
  note wb = "2.prems"(1)
  obtain u v where cell: "cell = Real u v" and ex: "cellExists m u v"
    using "2.prems"(2) by blast
  obtain tx ty act where dir: "dir = ((tx, ty), act)" by (metis prod.collapse)
  have din: "((tx, ty), act) \<in> set (directions (Real u v))"
    using "2.prems"(3) dir cell by simp
  have sub: "set dirs \<subseteq> set (directions cell)" using "2.prems"(3) by simp
  show ?case
  proof (cases "cellExists m (fst (fst dir)) (snd (fst dir))")
    case True
    have "carved m dirs (fst (recursivePopulate_loop m g cell dirs))"
      using "2.IH"(4)[OF _ wb "2.prems"(2) sub] True by simp
    then have "carved m (dir # dirs) (fst (recursivePopulate_loop m g cell dirs))"
      using True by (simp add: carved_skip)
    then show ?thesis using True by simp
  next
    case False
    obtain m1 r where cc: "createCell m (fst (fst dir)) (snd (fst dir)) = (m1, r)"
      by (cases "createCell m (fst (fst dir)) (snd (fst dir))")
    show ?thesis
    proof (cases r)
      case None
      have same: "m1 = m" using cc None createCell_None_same by blast
      have out: "\<not> in_bounds m (fst (fst dir)) (snd (fst dir))"
        using cc None createCell_in(1)[of m "fst (fst dir)" "snd (fst dir)"] by auto
      have "carved m dirs (fst (recursivePopulate_loop m g cell dirs))"
        using "2.IH"(1)[OF False cc[symmetric] None] wb "2.prems"(2) sub same by simp
      then have "carved m (dir # dirs) (fst (recursivePopulate_loop m g cell dirs))"
        using out by (simp add: carved_skip)
      then show ?thesis using False cc None same by simp
    next
      case (Some nc)
      have ib: "in_bounds m tx ty"
        using cc Some createCell_out[of m tx ty] dir by auto
      have ne: "\<not> cellExists m tx ty" using False dir by simp
      have m1: "m1 = fst (createCell m tx ty)" and nc: "nc = Real tx ty"
        using cc Some createCell_in(1)[OF ib] dir by auto
      define m2 where "m2 = fst (apply_action (snd dir) m1 cell nc)"
      have m2: "m2 = fst (apply_action act (fst (createCell m tx ty)) (Real u v) (Real tx ty))"
        by (simp add: m2_def dir m1 nc cell)
      obtain order g1 where sm: "sample g (directions nc) 4 = (order, g1)"
        by (cases "sample g (directions nc) 4")
      obtain m3 g2 where rc: "recursivePopulate_loop m2 g1 nc order = (m3, g2)"
        by (cases "recursivePopulate_loop m2 g1 nc order")
      have so: "set order = set (directions (Real tx ty))"
        using sm set_sample[of g nc] nc by simp
      have wb2: "walls_backed m2" unfolding m2 by (rule carve_step(1)[OF wb ex din ib ne])
      have e2: "\<exists>e. edges m2 = insert e (edges m) \<and> (e = ((u, v), (tx, ty)) \<or> e = ((tx, ty), (u, v)))"
        unfolding m2 by (rule carve_step(2)[OF wb ex din ib ne])
      have c2: "cells m2 = insert (tx, ty) (cells m)"
        using ib by (auto simp: cells_def m2 cellExists_createCell)
      have dm: "max_width m2 = max_width m" "max_height m2 = max_height m"
        by (simp_all add: m2)
      have g2: "grown (cells m) (edges m) \<longrightarrow> grown (cells m2) (edges m2)"
      proof
        assume g: "grown (cells m) (edges m)"
        obtain e where e: "edges m2 = insert e (edges m)"
             "e = ((u, v), (tx, ty)) \<or> e = ((tx, ty), (u, v))" using e2 by blast
        have "grown (insert (tx, ty) (cells m)) (insert e (edges m))"
          by (rule grown_add[OF g _ _ e(2)]) (use ex ne in \<open>simp_all add: cells_def\<close>)
        then show "grown (cells m2) (edges m2)" using c2 e(1) by simp
      qed
      have ex2: "\<exists>u v. nc = Real u v \<and> cellExists m2 u v"
        using nc c2 by (auto simp: cells_def)
      have a: "carved m2 order m3"
        using "2.IH"(2)[OF False cc[symmetric] Some m2_def sm[symmetric] refl wb2 ex2] so nc rc
        by simp
      have ex3: "\<exists>u v. cell = Real u v \<and> cellExists m3 u v"
        using cell ex c2 carved_frame(4)[OF a] by (auto simp: cells_def)
      have b: "carved m3 dirs (fst (recursivePopulate_loop m3 g2 cell dirs))"
        using "2.IH"(3)[OF False cc[symmetric] Some m2_def sm[symmetric] refl rc[symmetric] refl
                carved_frame(1)[OF a] ex3 sub] .
      have "carved m (((tx, ty), act) # dirs) (fst (recursivePopulate_loop m3 g2 cell dirs))"
        by (rule carved_descend[OF c2 dm g2 a so b])
      moreover have "recursivePopulate_loop m g cell (dir # dirs) = recursivePopulate_loop m3 g2 cell dirs"
        using False cc Some sm rc by (simp add: m2_def Let_def)
      ultimately show ?thesis using dir by simp
    qed
  qed
qed

lemma walls_backed_Maze: "walls_backed (Maze w h)"
  by (simp add: walls_backed_def)

lemma walls_backed_createCell:
  assumes "walls_backed m"
  shows "walls_backed (fst (createCell m x y))"
proof (cases "in_bounds m x y")
  case False
  then show ?thesis using assms by (simp add: createCell_out)
next
  case True
  show ?thesis
  proof (rule walls_backed_update[OF assms])
    fix a b assume "cellExists m a b"
    then show "cellExists (fst (createCell m x y)) a b" by (simp add: cellExists_createCell)
  next
    fix a b c assume "stored (fst (createCell m x y)) a b = Some c"
    then show "stored m a b = Some c \<or>
                 (\<not> empty c \<and> (\<not> wall_right c \<longrightarrow> cellExists (fst (createCell m x y)) (a + 1) b) \<and>
                  (\<not> wall_below c \<longrightarrow> cellExists (fst (createCell m x y)) a (b + 1)))"
      by (auto simp: createCell_in(4)[OF True] Cell_def split: if_splits option.splits)
  qed
qed

lemma populateFrom_result:
  assumes "populateFrom m g x y = Inr ((m', g'), b)"
  shows "(cellExists m x y \<and> m' = m \<and> \<not> b) \<or>
         (\<not> cellExists m x y \<and> in_bounds m x y \<and> b \<and>
          m' = fst (recursivePopulate_loop (fst (createCell m x y)) (\<lambda>n. g (Suc n)) (Real x y)
                  (pick 4 (g 0) (directions (Real x y)))))"
proof (cases "cellExists m x y")
  case True
  then show ?thesis using assms by (simp add: populateFrom_exists)
next
  case False
  then have ib: "in_bounds m x y" using assms populateFrom_out by fastforce
  show ?thesis using assms False ib by (auto simp: populateFrom_in)
qed

lemma populate_carved:
  assumes wb: "walls_backed m" and ne: "\<not> cellExists m x y" and ib: "in_bounds m x y"
  shows "carved (fst (createCell m x y)) (pick 4 (g 0) (directions (Real x y)))
           (fst (recursivePopulate_loop (fst (createCell m x y)) g' (Real x y)
                  (pick 4 (g 0) (directions (Real x y)))))"
proof (rule loop_carved)
  show "walls_backed (fst (createCell m x y))" by (rule walls_backed_createCell[OF wb])
  show "\<exists>u v. Real x y = Real u v \<and> cellExists (fst (createCell m x y)) u v"
    using ib by (simp add: cellExists_createCell)
  show "set (pick 4 (g 0) (directions (Real x y))) \<subseteq> set (directions (Real x y))"
    by (simp add: set_pick directions_def)
qed

lemma generated_walls_backed: "generated m \<Longrightarrow> walls_backed m"
proof (induction rule: generated.induct)
  case (generated_init w h)
  show ?case by (rule walls_backed_Maze)
next
  case (generated_create m x y)
  then show ?case by (simp add: walls_backed_createCell)
next
  case (generated_populate m g x y m' g' b)
  from populateFrom_result[OF generated_populate.hyps(2)] show ?case
  proof
    assume "cellExists m x y \<and> m' = m \<and> \<not> b"
    then show ?thesis using generated_populate.IH by simp
  next
    assume a: "\<not> cellExists m x y \<and> in_bounds m x y \<and> b \<and>
          m' = fst (recursivePopulate_loop (fst (createCell m x y)) (\<lambda>n. g (Suc n)) (Real x y)
                  (pick 4 (g 0) (directions (Real x y))))"
    have "carved (fst (createCell m x y)) (pick 4 (g 0) (directions (Real x y))) m'"
      using populate_carved[OF generated_populate.IH, of x y g "\<lambda>n. g (Suc n)"] a by simp
    then show ?thesis by (rule carved_frame(1))
  qed
qed

lemma generated_reachable: "generated m \<Longrightarrow> reachable m"
  by (induction rule: generated.induct) (auto intro: reachable.intros)

lemma hasWall_getCell_stored:
  assumes "reachable m" "stored m x y = Some c"
  shows "hasWallRight m (getCell m x y) = wall_right c" "hasWallBelow m (getCell m x y) = wall_below c"
proof -
  have ex: "cellExists m x y" using assms(2) by (simp add: cellExists_stored)
  have "in_bounds m x y" by (rule reachable_in_bounds[OF assms(1) ex])
  then have "getCell m x y = Real x y" using ex by (simp add: getCell_cases)
  then show "hasWallRight m (getCell m x y) = wall_right c" "hasWallBelow m (getCell m x y) = wall_below c"
    using assms(2) by (simp_all add: hasWallRight_def hasWallBelow_def)
qed

lemma hasWall_getCell_absent:
  assumes "\<not> cellExists m x y"
  shows "hasWallRight m (getCell m x y) = cellExists m (x + 1) y"
    "hasWallBelow m (getCell m x y) = cellExists m x (y + 1)"
  using assms by (simp_all add: getCell_cases hasWallRight_def hasWallBelow_def Cell_def)

subsection \<open>A set of grid coordinates closed under neighbours\<close>

lemma line_closed:
  fixes P :: "int \<Rightarrow> bool"
  assumes start: "P x0" "lo \<le> x0" "x0 < hi"
      and up: "\<And>a. P a \<Longrightarrow> a + 1 < hi \<Longrightarrow> lo \<le> a + 1 \<Longrightarrow> P (a + 1)"
      and down: "\<And>a. P a \<Longrightarrow> lo \<le> a - 1 \<Longrightarrow> a - 1 < hi \<Longrightarrow> P (a - 1)"
  shows "lo \<le> a \<Longrightarrow> a < hi \<Longrightarrow> P a"
proof (induction "nat \<bar>a - x0\<bar>" arbitrary: a)
  case 0
  then have "a = x0" by simp
  then show ?case using start(1) by simp
next
  case (Suc k)
  show ?case
  proof (cases "x0 < a")
    case True
    have "k = nat \<bar>(a - 1) - x0\<bar>" using Suc.hyps(2) True by linarith
    moreover have "lo \<le> a - 1" "a - 1 < hi" using True start(2) Suc.prems by linarith+
    ultimately have "P (a - 1)" using Suc.hyps(1) by blast
    then show ?thesis using up[of "a - 1"] Suc.prems by simp
  next
    case False
    then have lt: "a < x0" using Suc.hyps(2) by linarith
    have "k = nat \<bar>(a + 1) - x0\<bar>" using Suc.hyps(2) lt by linarith
    moreover have "lo \<le> a + 1" "a + 1 < hi" using lt start(3) Suc.prems by linarith+
    ultimately have "P (a + 1)" using Suc.hyps(1) by blast
    then show ?thesis using down[of "a + 1"] Suc.prems by simp
  qed
qed

lemma grid_closed:
  assumes seed: "(x0, y0) \<in> S" "0 \<le> x0" "x0 < w" "0 \<le> y0" "y0 < h"
      and closed: "\<And>c n. c \<in> S \<Longrightarrow> nbr c n \<Longrightarrow>
                     0 \<le> fst n \<Longrightarrow> fst n < w \<Longrightarrow> 0 \<le> snd n \<Longrightarrow> snd n < h \<Longrightarrow> n \<in> S"
      and ab: "0 \<le> a" "a < w" "0 \<le> b" "b < h"
  shows "(a, b) \<in> S"
proof -
  have row: "(a, y0) \<in> S"
  proof (rule line_closed[where P = "\<lambda>a. (a, y0) \<in> S" and lo = 0 and hi = w and ?x0.0 = x0])
    fix c assume "(c, y0) \<in> S" "c + 1 < w" "0 \<le> c + 1"
    then show "(c + 1, y0) \<in> S"
      using closed[of "(c, y0)" "(c + 1, y0)"] seed(4,5) by (simp add: nbr_def)
  next
    fix c assume "(c, y0) \<in> S" "0 \<le> c - 1" "c - 1 < w"
    then show "(c - 1, y0) \<in> S"
      using closed[of "(c, y0)" "(c - 1, y0)"] seed(4,5) by (simp add: nbr_def)
  qed (use seed ab in simp_all)
  show ?thesis
  proof (rule line_closed[where P = "\<lambda>b. (a, b) \<in> S" and lo = 0 and hi = h and ?x0.0 = y0])
    fix c assume "(a, c) \<in> S" "c + 1 < h" "0 \<le> c + 1"
    then show "(a, c + 1) \<in> S"
      using closed[of "(a, c)" "(a, c + 1)"] ab(1,2) by (simp add: nbr_def)
  next
    fix c assume "(a, c) \<in> S" "0 \<le> c - 1" "c - 1 < h"
    then show "(a, c - 1) \<in> S"
      using closed[of "(a, c)" "(a, c - 1)"] ab(1,2) by (simp add: nbr_def)
  qed (use seed ab row in simp_all)
qed


subsection \<open>From the grown graph to the passage graph\<close>

lemma broken_in_cells: "broken_right m \<subseteq> cells m" "broken_below m \<subseteq> cells m"
proof -
  show "broken_right m \<subseteq> cells m"
  proof
    fix a assume "a \<in> broken_right m"
    then obtain c where "stored m (fst a) (snd a) = Some c"
      unfolding broken_right_def by (cases a) auto
    then have "cellExists m (fst a) (snd a)" by (simp add: cellExists_stored)
    then show "a \<in> cells m" unfolding cells_def by (cases a) simp
  qed
  show "broken_below m \<subseteq> cells m"
  proof
    fix a assume "a \<in> broken_below m"
    then obtain c where "stored m (fst a) (snd a) = Some c"
      unfolding broken_below_def by (cases a) auto
    then have "cellExists m (fst a) (snd a)" by (simp add: cellExists_stored)
    then show "a \<in> cells m" unfolding cells_def by (cases a) simp
  qed
qed

lemma edges_alt: "edges m = right_edge ` broken_right m \<union> below_edge ` broken_below m"
proof -
  have "(\<lambda>(x, y). ((x, y), (x + 1, y))) = right_edge"
    by (rule ext) (simp add: right_edge_def case_prod_unfold)
  moreover have "(\<lambda>(x, y). ((x, y), (x, y + 1))) = below_edge"
    by (rule ext) (simp add: below_edge_def case_prod_unfold)
  ultimately show ?thesis by (simp only: edges_def)
qed

lemma broken_walls_edges:
  assumes "finite (cells m)"
  shows "broken_walls m = card (edges m)"
proof -
  have fr: "finite (broken_right m)" by (rule finite_subset[OF broken_in_cells(1) assms])
  have fb: "finite (broken_below m)" by (rule finite_subset[OF broken_in_cells(2) assms])
  have "inj_on right_edge (broken_right m)"
    by (rule inj_onI) (simp add: right_edge_def)
  then have cr: "card (right_edge ` broken_right m) = card (broken_right m)" by (rule card_image)
  have "inj_on below_edge (broken_below m)"
    by (rule inj_onI) (simp add: below_edge_def)
  then have cb: "card (below_edge ` broken_below m) = card (broken_below m)" by (rule card_image)
  have dj: "right_edge ` broken_right m \<inter> below_edge ` broken_below m = {}"
  proof (rule ccontr)
    assume "right_edge ` broken_right m \<inter> below_edge ` broken_below m \<noteq> {}"
    then obtain a b where "right_edge a = below_edge b" by blast
    then have "fst a = fst b" "fst a + 1 = fst b"
      unfolding right_edge_def below_edge_def by (metis fst_conv, metis fst_conv snd_conv)
    then show False by linarith
  qed
  have un: "card (right_edge ` broken_right m \<union> below_edge ` broken_below m) =
        card (right_edge ` broken_right m) + card (below_edge ` broken_below m)"
  proof (rule card_Un_disjoint)
    show "finite (right_edge ` broken_right m)" using fr by (rule finite_imageI)
    show "finite (below_edge ` broken_below m)" using fb by (rule finite_imageI)
    show "right_edge ` broken_right m \<inter> below_edge ` broken_below m = {}" by (rule dj)
  qed
  have "card (edges m) = card (broken_right m) + card (broken_below m)"
    unfolding edges_alt using un cr cb by linarith
  then show ?thesis unfolding broken_walls_def by linarith
qed

lemma grown_connected:
  assumes "grown (cells m) (edges m)"
  shows "connected m"
proof -
  have sub: "edges m \<subseteq> cells m \<times> cells m" using grown_basic[OF assms] by simp
  have "{(u, v). joined (edges m) u v} \<subseteq> {(u, v). passage m u v}"
    using sub by (auto simp: joined_def passage_def)
  then have "{(u, v). joined (edges m) u v}\<^sup>* \<subseteq> {(u, v). passage m u v}\<^sup>*"
    by (rule rtrancl_mono)
  then show ?thesis
    using grown_linked[OF assms] unfolding connected_def linked_def by blast
qed

lemma grown_acyclic:
  assumes "grown (cells m) (edges m)"
  shows "acyclic_maze m"
  unfolding acyclic_maze_def
proof
  assume "\<exists>p. maze_cycle m p"
  then obtain p where p: "maze_cycle m p" by blast
  have "cycle (edges m) p"
    using p unfolding maze_cycle_def cycle_def passage_def joined_def by blast
  then show False using grown_no_cycle[OF assms] by blast
qed


subsection \<open>The maze that holds the seed cell alone\<close>

lemma seed_only:
  assumes "0 \<le> x" "x < w" "0 \<le> y" "y < h"
  defines "m1 \<equiv> fst (createCell (Maze w h) x y)"
  shows "cells m1 = {(x, y)}" "edges m1 = {}"
proof -
  have ib: "in_bounds (Maze w h) x y" using assms by (simp add: in_bounds_def)
  have st: "stored m1 a b =
     (if a = x \<and> b = y
      then Some \<lparr>cx = x, cy = y, empty = False, wall_below = True, wall_right = True\<rparr>
      else None)" for a b
    unfolding m1_def by (simp add: stored_createCell_new[OF ib])
  show "cells m1 = {(x, y)}"
    by (auto simp: cells_def cellExists_stored st split: if_splits)
  have "broken_right m1 = {}" "broken_below m1 = {}"
    by (auto simp: broken_right_def broken_below_def st split: if_splits)
  then show "edges m1 = {}" by (simp add: edges_def)
qed

section \<open>The carving under the recursion limit\<close>

text \<open>
  A carving that returns under the limit returns what the carving without a limit
  computes; the only error it can end in is \<^verbatim>\<open>RecursionError\<close>; and it returns whenever the
  limit allows as many nested calls as there are free coordinates.
\<close>

lemma free_createCell_subset: "free (fst (createCell m x y)) \<subseteq> free m"
  by (auto simp: free_def in_bounds_def cellExists_createCell)

lemma loop_free_card:
  "card (free m) \<le> k \<Longrightarrow> card (free (fst (recursivePopulate_loop m g cell dirs))) \<le> k"
proof (rule loop_preserves[where P = "\<lambda>m. card (free m) \<le> k"])
  fix m x y assume "card (free m) \<le> k"
  then show "card (free (fst (createCell m x y))) \<le> k"
    using card_mono[OF finite_free[of m] free_createCell_subset[of m x y]] by linarith
next
  fix m act c n assume "card (free m) \<le> k"
  then show "card (free (fst (apply_action act m c n))) \<le> k"
    using card_mono[OF finite_free[of m] free_apply_action[of act m c n]] by linarith
qed

lemma loop_lim_sound:
  "recursivePopulate_loop_lim d m g cell dirs = Inr r \<Longrightarrow> r = recursivePopulate_loop m g cell dirs"
proof (induction d m g cell dirs arbitrary: r rule: recursivePopulate_loop_lim.induct)
  case (1 d m g cell)
  then show ?case by simp
next
  case (2 d m g cell dir dirs)
  show ?case
  proof (cases "cellExists m (fst (fst dir)) (snd (fst dir))")
    case True
    then show ?thesis using "2.IH"(4) "2.prems" by simp
  next
    case False
    obtain m1 c where cc: "createCell m (fst (fst dir)) (snd (fst dir)) = (m1, c)"
      by (cases "createCell m (fst (fst dir)) (snd (fst dir))")
    show ?thesis
    proof (cases c)
      case None
      then show ?thesis using "2.IH"(1)[OF False cc[symmetric] None] "2.prems" False cc by simp
    next
      case (Some nc)
      define m2 where "m2 = fst (apply_action (snd dir) m1 cell nc)"
      obtain order g1 where sm: "sample g (directions nc) 4 = (order, g1)"
        by (cases "sample g (directions nc) 4")
      show ?thesis
      proof (cases d)
        case 0
        then show ?thesis using "2.prems" False cc Some by (simp add: Let_def)
      next
        case (Suc d')
        show ?thesis
        proof (cases "recursivePopulate_loop_lim d' m2 g1 nc order")
          case (Inl e)
          then show ?thesis using "2.prems" False cc Some Suc sm by (simp add: Let_def m2_def)
        next
          case (Inr p)
          obtain m3 g2 where p: "p = (m3, g2)" by (cases p)
          have a: "recursivePopulate_loop m2 g1 nc order = (m3, g2)"
            using "2.IH"(2)[OF False cc[symmetric] Some m2_def Suc sm[symmetric] refl, of p] Inr p by simp
          have "recursivePopulate_loop_lim d m3 g2 cell dirs = Inr r"
            using "2.prems" False cc Some Suc sm Inr p by (simp add: Let_def m2_def)
          then have "r = recursivePopulate_loop m3 g2 cell dirs"
            by (rule "2.IH"(3)[OF False cc[symmetric] Some m2_def Suc sm[symmetric] refl Inr p[symmetric]])
          then show ?thesis using False cc Some sm a by (simp add: Let_def m2_def)
        qed
      qed
    qed
  qed
qed

lemma loop_lim_error:
  "recursivePopulate_loop_lim d m g cell dirs = Inl e \<Longrightarrow> e = RecursionError"
proof (induction d m g cell dirs arbitrary: e rule: recursivePopulate_loop_lim.induct)
  case (1 d m g cell)
  then show ?case by simp
next
  case (2 d m g cell dir dirs)
  show ?case
  proof (cases "cellExists m (fst (fst dir)) (snd (fst dir))")
    case True
    then show ?thesis using "2.IH"(4) "2.prems" by simp
  next
    case False
    obtain m1 c where cc: "createCell m (fst (fst dir)) (snd (fst dir)) = (m1, c)"
      by (cases "createCell m (fst (fst dir)) (snd (fst dir))")
    show ?thesis
    proof (cases c)
      case None
      then show ?thesis using "2.IH"(1)[OF False cc[symmetric] None] "2.prems" False cc by simp
    next
      case (Some nc)
      define m2 where "m2 = fst (apply_action (snd dir) m1 cell nc)"
      obtain order g1 where sm: "sample g (directions nc) 4 = (order, g1)"
        by (cases "sample g (directions nc) 4")
      show ?thesis
      proof (cases d)
        case 0
        then show ?thesis using "2.prems" False cc Some by (simp add: Let_def)
      next
        case (Suc d')
        show ?thesis
        proof (cases "recursivePopulate_loop_lim d' m2 g1 nc order")
          case (Inl e')
          have "e' = RecursionError"
            by (rule "2.IH"(2)[OF False cc[symmetric] Some m2_def Suc sm[symmetric] refl Inl])
          moreover have "e = e'"
            using "2.prems" False cc Some Suc sm Inl by (simp add: Let_def m2_def)
          ultimately show ?thesis by simp
        next
          case (Inr p)
          obtain m3 g2 where p: "p = (m3, g2)" by (cases p)
          have "recursivePopulate_loop_lim d m3 g2 cell dirs = Inl e"
            using "2.prems" False cc Some Suc sm Inr p by (simp add: Let_def m2_def)
          then show ?thesis
            by (rule "2.IH"(3)[OF False cc[symmetric] Some m2_def Suc sm[symmetric] refl Inr p[symmetric]])
        qed
      qed
    qed
  qed
qed

lemma loop_lim_enough:
  "card (free m) \<le> d \<Longrightarrow>
   recursivePopulate_loop_lim d m g cell dirs = Inr (recursivePopulate_loop m g cell dirs)"
proof (induction d m g cell dirs rule: recursivePopulate_loop_lim.induct)
  case (1 d m g cell)
  then show ?case by simp
next
  case (2 d m g cell dir dirs)
  show ?case
  proof (cases "cellExists m (fst (fst dir)) (snd (fst dir))")
    case True
    then show ?thesis using "2.IH"(4) "2.prems" by simp
  next
    case False
    obtain m1 c where cc: "createCell m (fst (fst dir)) (snd (fst dir)) = (m1, c)"
      by (cases "createCell m (fst (fst dir)) (snd (fst dir))")
    show ?thesis
    proof (cases c)
      case None
      have "m1 = m" using cc None createCell_None_same by blast
      then show ?thesis using "2.IH"(1)[OF False cc[symmetric] None] "2.prems" False cc None by simp
    next
      case (Some nc)
      define m2 where "m2 = fst (apply_action (snd dir) m1 cell nc)"
      obtain order g1 where sm: "sample g (directions nc) 4 = (order, g1)"
        by (cases "sample g (directions nc) 4")
      obtain m3 g2 where rc: "recursivePopulate_loop m2 g1 nc order = (m3, g2)"
        by (cases "recursivePopulate_loop m2 g1 nc order")
      have f1: "free m1 \<subset> free m" using free_createCell cc Some False by blast
      have f2: "free m2 \<subseteq> free m1" unfolding m2_def by (rule free_apply_action)
      have "free m2 \<subset> free m" using f1 f2 by blast
      then have "card (free m2) < card (free m)"
        by (rule psubset_card_mono[OF finite_free])
      then obtain d' where d: "d = Suc d'" and c2: "card (free m2) \<le> d'"
        using "2.prems" by (cases d) auto
      have a: "recursivePopulate_loop_lim d' m2 g1 nc order = Inr (m3, g2)"
        using "2.IH"(2)[OF False cc[symmetric] Some m2_def d sm[symmetric] refl c2] rc by simp
      have "card (free m3) \<le> card (free m2)"
        using loop_free_card[of m2 "card (free m2)" g1 nc order] rc by simp
      then have c3: "card (free m3) \<le> d" using c2 d by linarith
      have b: "recursivePopulate_loop_lim d m3 g2 cell dirs = Inr (recursivePopulate_loop m3 g2 cell dirs)"
        by (rule "2.IH"(3)[OF False cc[symmetric] Some m2_def d sm[symmetric] refl a refl c3])
      have l: "recursivePopulate_loop_lim d m g cell (dir # dirs) = recursivePopulate_loop_lim d m3 g2 cell dirs"
        using False cc Some d sm a by (simp add: Let_def m2_def)
      have u: "recursivePopulate_loop m g cell (dir # dirs) = recursivePopulate_loop m3 g2 cell dirs"
        using False cc Some sm rc by (simp add: Let_def m2_def)
      show ?thesis using l u b by simp
    qed
  qed
qed

lemma card_free_le: "card (free m) \<le> nat (max_width m) * nat (max_height m)"
proof -
  have "free m \<subseteq> {0..<max_width m} \<times> {0..<max_height m}"
    by (auto simp: free_def in_bounds_def)
  then have "card (free m) \<le> card ({0..<max_width m} \<times> {0..<max_height m})"
    by (rule card_mono[rotated]) simp
  then show ?thesis by (simp add: card_cartesian_product)
qed

lemma populateFrom_lim_exists:
  "cellExists m x y \<Longrightarrow> populateFrom_lim d m g x y = Inr ((m, g), False)"
  by (simp add: populateFrom_lim_def)

lemma populateFrom_lim_out:
  "\<not> cellExists m x y \<Longrightarrow> \<not> in_bounds m x y \<Longrightarrow>
   populateFrom_lim (Suc d) m g x y = Inl AttributeError"
  by (simp add: populateFrom_lim_def createCell_out recursivePopulate_lim_def)

lemma recursivePopulate_lim_sound:
  assumes "recursivePopulate_lim d m g (Some c) = Inr r"
  shows "recursivePopulate m g (Some c) = Inr r"
proof (cases d)
  case 0
  then show ?thesis using assms by (simp add: recursivePopulate_lim_def)
next
  case (Suc d')
  obtain order g1 where sm: "sample g (directions c) 4 = (order, g1)"
    by (cases "sample g (directions c) 4")
  have "recursivePopulate_loop_lim d' m g1 c order = Inr r"
    using assms Suc sm by (simp add: recursivePopulate_lim_def)
  then have "r = recursivePopulate_loop m g1 c order" by (rule loop_lim_sound)
  then show ?thesis using sm by (simp add: recursivePopulate_def)
qed

lemma recursivePopulate_lim_error:
  assumes "recursivePopulate_lim d m g (Some c) = Inl e"
  shows "e = RecursionError"
proof (cases d)
  case 0
  then show ?thesis using assms by (simp add: recursivePopulate_lim_def)
next
  case (Suc d')
  obtain order g1 where sm: "sample g (directions c) 4 = (order, g1)"
    by (cases "sample g (directions c) 4")
  have "recursivePopulate_loop_lim d' m g1 c order = Inl e"
    using assms Suc sm by (simp add: recursivePopulate_lim_def)
  then show ?thesis by (rule loop_lim_error)
qed

lemma recursivePopulate_lim_enough:
  assumes "card (free m) < d"
  shows "recursivePopulate_lim d m g (Some c) = recursivePopulate m g (Some c)"
proof -
  obtain d' where d: "d = Suc d'" and c: "card (free m) \<le> d'"
    using assms by (cases d) auto
  obtain order g1 where sm: "sample g (directions c) 4 = (order, g1)"
    by (cases "sample g (directions c) 4")
  show ?thesis
    using loop_lim_enough[OF c, of g1 c order] sm d
    by (simp add: recursivePopulate_lim_def recursivePopulate_def)
qed

lemma populateFrom_lim_sound:
  assumes "populateFrom_lim d m g x y = Inr r"
  shows "populateFrom m g x y = Inr r"
proof (cases "cellExists m x y")
  case True
  then show ?thesis using assms by (simp add: populateFrom_lim_def populateFrom_def)
next
  case False
  obtain m1 c where cc: "createCell m x y = (m1, c)" by (cases "createCell m x y")
  show ?thesis
  proof (cases c)
    case None
    then show ?thesis using assms False cc
      by (simp add: populateFrom_lim_def recursivePopulate_lim_def split: nat.splits)
  next
    case (Some nc)
    show ?thesis
    proof (cases "recursivePopulate_lim d m1 g (Some nc)")
      case (Inl e)
      then show ?thesis using assms False cc Some by (simp add: populateFrom_lim_def)
    next
      case (Inr p)
      have "recursivePopulate m1 g (Some nc) = Inr p" by (rule recursivePopulate_lim_sound[OF Inr])
      then show ?thesis using assms False cc Some Inr
        by (simp add: populateFrom_lim_def populateFrom_def)
    qed
  qed
qed

lemma case_createCell_in:
  assumes "in_bounds m x y"
  shows "(case createCell m x y of (m1, None) \<Rightarrow> A m1 | (m1, Some nc) \<Rightarrow> B m1 nc) =
         B (fst (createCell m x y)) (Real x y)"
proof -
  have "createCell m x y = (fst (createCell m x y), Some (Real x y))"
    using createCell_in(1)[OF assms] by (metis prod.collapse)
  then show ?thesis by (metis (mono_tags, lifting) case_prod_conv option.simps(5))
qed

section \<open>The maze after a whole carving\<close>

lemma populate_tree:
  assumes "0 < w" "0 < h" "0 \<le> x" "x < w" "0 \<le> y" "y < h"
  shows "\<exists>m' g'. populateFrom (Maze w h) g x y = Inr ((m', g'), True) \<and>
           (\<forall>i j. 0 \<le> i \<and> i < w \<and> 0 \<le> j \<and> j < h \<longrightarrow>
              cellExists m' i j \<and> getCell m' i j = Real i j \<and> \<not> empty (deref m' (getCell m' i j))) \<and>
           cells m' = {0..<w} \<times> {0..<h} \<and>
           broken_walls m' = card (cells m') - 1 \<and> connected m' \<and> acyclic_maze m'"
proof -
  define m1 where "m1 = fst (createCell (Maze w h) x y)"
  define order where "order = pick 4 (g 0) (directions (Real x y))"
  define res where "res = recursivePopulate_loop m1 (\<lambda>n. g (Suc n)) (Real x y) order"
  define m' where "m' = fst res"
  have ne: "\<not> cellExists (Maze w h) x y" by simp
  have ib: "in_bounds (Maze w h) x y" using assms by (simp add: in_bounds_def)
  have pf: "populateFrom (Maze w h) g x y = Inr ((m', snd res), True)"
    using populateFrom_in[OF ne ib, of g] by (simp add: res_def m1_def order_def m'_def)
  have car: "carved m1 order m'"
    unfolding m1_def order_def m'_def res_def
    by (rule populate_carved[OF walls_backed_Maze ne ib])
  have c1: "cells m1 = {(x, y)}" and e1: "edges m1 = {}"
    unfolding m1_def using seed_only[OF assms(3-6)] by simp_all
  have "grown (cells m1) (edges m1)" unfolding c1 e1 by (rule grown_one)
  then have gr: "grown (cells m') (edges m')" by (rule carved_grown[OF car])
  have wb: "walls_backed m'" by (rule carved_frame(1)[OF car])
  have dm: "max_width m' = w" "max_height m' = h"
    using carved_frame(2,3)[OF car] by (simp_all add: m1_def)
  have d1: "max_width m1 = w" "max_height m1 = h" by (simp_all add: m1_def)
  have re: "reachable m'" by (rule reachable_populate[OF reachable_init pf])
  have seed: "(x, y) \<in> cells m'" using carved_frame(4)[OF car] c1 by simp
  have so: "set order = set (directions (Real x y))"
    unfolding order_def by (simp add: set_pick directions_def)
  have closed: "n \<in> cells m'"
    if c: "c \<in> cells m'" and n: "nbr c n" "0 \<le> fst n" "fst n < w" "0 \<le> snd n" "snd n < h" for c n
  proof -
    have ibn: "in_bounds m1 (fst n) (snd n)" using n d1 by (simp add: in_bounds_def)
    show ?thesis
    proof (cases "c = (x, y)")
      case True
      then have "n \<in> fst ` set order" using n(1) so by (simp add: nbr_directions)
      then obtain d where d: "d \<in> set order" "fst d = n" by (metis imageE)
      have "in_bounds m1 (fst (fst d)) (snd (fst d))" using ibn d(2) by simp
      then show ?thesis using carved_target[OF car d(1)] d(2) by simp
    next
      case False
      then have "c \<notin> cells m1" using c1 by simp
      then show ?thesis using carved_closed[OF car c _ n(1) ibn] by simp
    qed
  qed
  have all: "(a, b) \<in> cells m'" if "0 \<le> a" "a < w" "0 \<le> b" "b < h" for a b
    by (rule grid_closed[OF seed assms(3-6) closed that])
  have sub: "cells m' \<subseteq> {0..<w} \<times> {0..<h}"
  proof
    fix c assume "c \<in> cells m'"
    then have "cellExists m' (fst c) (snd c)" by (simp add: cells_def case_prod_unfold)
    then have "in_bounds m' (fst c) (snd c)" by (rule reachable_in_bounds[OF re])
    then show "c \<in> {0..<w} \<times> {0..<h}" using dm by (cases c) (simp add: in_bounds_def)
  qed
  have eq: "cells m' = {0..<w} \<times> {0..<h}"
  proof
    show "{0..<w} \<times> {0..<h} \<subseteq> cells m'"
    proof
      fix c :: "int \<times> int" assume "c \<in> {0..<w} \<times> {0..<h}"
      then have "(fst c, snd c) \<in> cells m'" using all[of "fst c" "snd c"] by (cases c) simp
      then show "c \<in> cells m'" by simp
    qed
  qed (rule sub)
  have fin: "finite (cells m')" unfolding eq by simp
  have bw: "broken_walls m' = card (cells m') - 1"
    using broken_walls_edges[OF fin] grown_card[OF gr] by simp
  have real: "cellExists m' i j \<and> getCell m' i j = Real i j \<and> \<not> empty (deref m' (getCell m' i j))"
    if ij: "0 \<le> i \<and> i < w \<and> 0 \<le> j \<and> j < h" for i j
  proof -
    have ex: "cellExists m' i j" using all[of i j] ij by (simp add: cells_def)
    have ibm: "in_bounds m' i j" using ij dm by (simp add: in_bounds_def)
    have gc: "getCell m' i j = Real i j" using ex ibm by (simp add: getCell_cases)
    obtain c where c: "stored m' i j = Some c" using ex by (auto simp: cellExists_stored)
    have "\<not> empty c" using wb c unfolding walls_backed_def by blast
    then show ?thesis using ex gc c by simp
  qed
  show ?thesis
  proof (intro exI[of _ m'] exI[of _ "snd res"] conjI allI impI)
    show "populateFrom (Maze w h) g x y = Inr ((m', snd res), True)" by (rule pf)
    show "cells m' = {0..<w} \<times> {0..<h}" by (rule eq)
    show "broken_walls m' = card (cells m') - 1" by (rule bw)
    show "connected m'" by (rule grown_connected[OF gr])
    show "acyclic_maze m'" by (rule grown_acyclic[OF gr])
  qed (use real in blast)+
qed

lemma broken_walls_zero:
  assumes re: "reachable m"
      and r: "\<And>a b. cellExists m a b \<Longrightarrow> hasWallRight m (getCell m a b)"
      and b: "\<And>a b. cellExists m a b \<Longrightarrow> hasWallBelow m (getCell m a b)"
  shows "broken_walls m = 0"
proof -
  have "broken_right m = {}"
  proof (rule ccontr)
    assume "broken_right m \<noteq> {}"
    then obtain a b c where c: "stored m a b = Some c" "\<not> wall_right c"
      unfolding broken_right_def by blast
    have "cellExists m a b" using c(1) by (simp add: cellExists_stored)
    then show False using r[of a b] hasWall_getCell_stored(1)[OF re c(1)] c(2) by simp
  qed
  moreover have "broken_below m = {}"
  proof (rule ccontr)
    assume "broken_below m \<noteq> {}"
    then obtain a b' c where c: "stored m a b' = Some c" "\<not> wall_below c"
      unfolding broken_below_def by blast
    have "cellExists m a b'" using c(1) by (simp add: cellExists_stored)
    then show False using b[of a b'] hasWall_getCell_stored(2)[OF re c(1)] c(2) by simp
  qed
  ultimately show ?thesis by (simp add: broken_walls_def)
qed

section \<open>The claims\<close>

subsection \<open>The left and top walls\<close>

lemma maze_cell_method_getcell: "maze_cell_method ''getcell'' m x y = Inl AttributeError"
  by (simp add: maze_cell_method_def)

text \<open>
  C2. Claimed: for adjacent real cells \<open>A\<close> at \<open>(x, y)\<close> and \<open>B\<close> at \<open>(x + 1, y)\<close>,
  \<^verbatim>\<open>A.hasWallRight()\<close> equals \<^verbatim>\<open>B.hasWallLeft()\<close>, and likewise \<^verbatim>\<open>A.hasWallBelow()\<close> equals
  \<^verbatim>\<open>B.hasWallAbove()\<close> for \<open>B\<close> at \<open>(x, y + 1)\<close>. In the code \<^verbatim>\<open>hasWallLeft\<close> and
  \<^verbatim>\<open>hasWallAbove\<close> raise, so for the cells at any two such coordinates of any maze the
  right-hand side is never the Boolean that the left-hand side returns.
\<close>

theorem wall_symmetry_raises:
  "hasWallLeft m (getCell m (x + 1) y) \<noteq> Inr (hasWallRight m (getCell m x y)) \<and>
   hasWallAbove m (getCell m x (y + 1)) \<noteq> Inr (hasWallBelow m (getCell m x y))"
  by (simp add: hasWallLeft_def hasWallAbove_def maze_cell_method_getcell)

text \<open>
  C3. Claimed: \<^verbatim>\<open>hasWallLeft()\<close> and \<^verbatim>\<open>hasWallAbove()\<close> never fail and return the Boolean
  answer of the neighbour found by the grid lookup. In the code both call the method
  \<^verbatim>\<open>getcell\<close>, which the class does not have: on every cell of every maze both raise
  \<^verbatim>\<open>AttributeError\<close>.
\<close>

theorem hasWallLeft_hasWallAbove_raise:
  "hasWallLeft m r = Inl AttributeError \<and> hasWallAbove m r = Inl AttributeError"
  by (simp add: hasWallLeft_def hasWallAbove_def maze_cell_method_getcell)

text \<open>
  C4. Claimed: \<^verbatim>\<open>breakWallLeft()\<close> is \<^verbatim>\<open>breakWallRight()\<close> on the cell looked up at
  \<open>(x - 1, y)\<close> and \<^verbatim>\<open>breakWallAbove()\<close> is \<^verbatim>\<open>breakWallBelow()\<close> on the cell looked up at
  \<open>(x, y - 1)\<close>. In the code both look the neighbour up with \<^verbatim>\<open>getcell\<close> and raise
  \<^verbatim>\<open>AttributeError\<close> on every cell of every maze, before any wall is touched;
  \<^verbatim>\<open>breakWallAbove\<close> would moreover call \<^verbatim>\<open>breakWallAbove\<close>, not \<^verbatim>\<open>breakWallBelow\<close>, on it.
\<close>

theorem breakWallLeft_breakWallAbove_raise:
  "breakWallLeft m r = Inl AttributeError \<and> breakWallAbove m r = Some (Inl AttributeError)"
proof
  show "breakWallLeft m r = Inl AttributeError"
    by (simp add: breakWallLeft_def maze_cell_method_getcell)
  show "breakWallAbove m r = Some (Inl AttributeError)"
    by (subst breakWallAbove.simps) (simp add: maze_cell_method_getcell)
qed

subsection \<open>Rendering a maze without cells\<close>

lemma str_rows_total:
  "min_x m = Some a \<Longrightarrow> max_x m = Some b \<Longrightarrow> \<exists>s. str_rows m ret rows = Inr s"
  by (induction rows arbitrary: ret) auto

text \<open>
  C10. Rendering a maze in which no cell has been created yet fails: the bounding box is
  still \<^verbatim>\<open>None\<close> and the row range raises \<^verbatim>\<open>TypeError\<close>; no empty or blank string is
  returned. Once a cell has been created, rendering returns a string. This holds in
  every reachable state, the freshly constructed maze among them.
\<close>

theorem str_maze_needs_a_cell:
  assumes "reachable m"
  shows "(cells m = {} \<longrightarrow> str_maze m = Inl TypeError) \<and>
         (cells m \<noteq> {} \<longrightarrow> (\<exists>s. str_maze m = Inr s))"
proof (intro conjI impI)
  assume "cells m = {}"
  then have "min_y m = None" using reachable_empty_bbox[OF assms] by simp
  then show "str_maze m = Inl TypeError" by (simp add: str_maze_def)
next
  assume "cells m \<noteq> {}"
  then obtain x y where "cellExists m x y" by (auto simp: cells_def)
  then have "in_bbox m x y" using reachable_in_bbox[OF assms] by simp
  then show "\<exists>s. str_maze m = Inr s"
    using str_rows_total by (auto simp: in_bbox_def str_maze_def)
qed

theorem str_maze_needs_a_cell_witness:
  "reachable (Maze 3 3) \<and> cells (Maze 3 3) = {} \<and> str_maze (Maze 3 3) = Inl TypeError"
proof -
  have c: "cells (Maze 3 3) = {}" by (simp add: cells_def cellExists_def Maze_def)
  show ?thesis using str_maze_needs_a_cell[OF reachable_init, of 3 3] c reachable_init by simp
qed

subsection \<open>Bounds that are not positive\<close>

lemma reachable_dims_cells:
  assumes "reachable m" "max_width m \<le> 0 \<or> max_height m \<le> 0"
  shows "\<not> cellExists m x y"
  using reachable_in_bounds[OF assms(1), of x y] assms(2) by (auto simp: in_bounds_def)

text \<open>
  In every reachable state of a maze whose width or height is zero or negative,
  \<^verbatim>\<open>createCell\<close> returns \<^verbatim>\<open>None\<close> for every coordinate and the grid contains no cell.
\<close>

lemma nonpositive_bounds_no_cells:
  assumes "reachable m" "max_width m \<le> 0 \<or> max_height m \<le> 0"
  shows "createCell m x y = (m, None) \<and> \<not> cellExists m x y \<and> cells m = {}"
proof -
  have "\<not> in_bounds m x y" using assms(2) by (auto simp: in_bounds_def)
  then have "createCell m x y = (m, None)" by (rule createCell_out)
  moreover have "\<And>a b. \<not> cellExists m a b" using reachable_dims_cells[OF assms] .
  ultimately show ?thesis by (simp add: cells_def)
qed

text \<open>
  C9. Claimed: with a width or height that is zero or negative the core behaves as a grid
  without cells, and \<^verbatim>\<open>populateFrom\<close> and rendering do not crash ambiguously. In the code,
  on every such maze as constructed, \<^verbatim>\<open>createCell\<close> does return \<^verbatim>\<open>None\<close> for every
  coordinate, but \<^verbatim>\<open>populateFrom\<close> passes that \<^verbatim>\<open>None\<close> on to the carving, which raises
  \<^verbatim>\<open>AttributeError\<close> on reading \<^verbatim>\<open>cell.x\<close>, and rendering raises \<^verbatim>\<open>TypeError\<close> on the
  bounding box that is still \<^verbatim>\<open>None\<close>.
\<close>

theorem nonpositive_bounds_raise:
  assumes "w \<le> 0 \<or> h \<le> 0"
  shows "createCell (Maze w h) x y = (Maze w h, None) \<and>
         populateFrom (Maze w h) g x y = Inl AttributeError \<and>
         populateFrom_lim (Suc d) (Maze w h) g x y = Inl AttributeError \<and>
         str_maze (Maze w h) = Inl TypeError"
proof -
  have out: "\<not> in_bounds (Maze w h) x y" using assms by (auto simp: in_bounds_def)
  show ?thesis
    using out by (simp add: createCell_out populateFrom_out populateFrom_lim_out str_maze_def)
qed

theorem nonpositive_bounds_raise_witness:
  "((0::int) \<le> 0 \<or> (0::int) \<le> 0) \<and>
   createCell (Maze 0 0) 0 0 = (Maze 0 0, None) \<and>
   populateFrom (Maze 0 0) (fixed_rng 0) 0 0 = Inl AttributeError \<and>
   populateFrom_lim (Suc 0) (Maze 0 0) (fixed_rng 0) 0 0 = Inl AttributeError \<and>
   str_maze (Maze 0 0) = Inl TypeError"
  using nonpositive_bounds_raise[of 0 0 0 0 "fixed_rng 0" 0] by simp

subsection \<open>The maze of one cell\<close>

lemma one_cell_exists: "cellExists one_cell a b \<longleftrightarrow> a = 0 \<and> b = 0"
  by (auto simp: one_cell_def cellExists_createCell in_bounds_def)

lemma one_cell_stored:
  "stored one_cell 0 0 = Some \<lparr>cx = 0, cy = 0, empty = False, wall_below = True, wall_right = True\<rparr>"
  by (simp add: one_cell_def createCell_in in_bounds_def Cell_def)

lemma one_cell_bbox:
  "min_x one_cell = Some 0" "max_x one_cell = Some 0" "min_y one_cell = Some 0" "max_y one_cell = Some 0"
  by (simp_all add: one_cell_def createCell_bbox in_bounds_def lower_def raise_def)

lemma one_cell_dims: "max_width one_cell = 1" "max_height one_cell = 1"
  by (simp_all add: one_cell_def)

lemma one_cell_populate:
  "populateFrom (Maze 1 1) g 0 0 = Inr ((one_cell, \<lambda>n. g (Suc n)), True)"
proof -
  have ib: "in_bounds (Maze 1 1) 0 0" by (simp add: in_bounds_def)
  have "set (pick 4 (g 0) (directions (Real 0 0))) = set (directions (Real 0 0))"
    by (simp add: set_pick directions_def)
  then have "\<forall>d\<in>set (pick 4 (g 0) (directions (Real 0 0))).
          cellExists one_cell (fst (fst d)) (snd (fst d)) \<or> \<not> in_bounds one_cell (fst (fst d)) (snd (fst d))"
    by (simp add: directions_def in_bounds_def one_cell_dims)
  then have "recursivePopulate_loop one_cell (\<lambda>n. g (Suc n)) (Real 0 0)
                  (pick 4 (g 0) (directions (Real 0 0))) = (one_cell, \<lambda>n. g (Suc n))"
    by (rule loop_nothing_to_do)
  then show ?thesis using populateFrom_in[of "Maze 1 1" 0 0 g] ib
    by (simp add: one_cell_def)
qed

lemma one_cell_str:
  "str_maze one_cell = Inr (''  __'' @ [CHR 0x0A] @ '' |_|'' @ [CHR 0x0A])"
  by (simp add: str_maze_def one_cell_bbox upto.simps getCell_cases one_cell_exists in_bounds_def
        one_cell_dims Cell_def str_cell_def one_cell_stored)

lemma one_cell_broken: "broken_walls one_cell = 0"
proof -
  have "\<And>a b c. stored one_cell a b = Some c \<Longrightarrow> a = 0 \<and> b = 0"
    using one_cell_exists by (metis cellExists_stored option.distinct(1))
  then have "broken_right one_cell = {}" "broken_below one_cell = {}"
    using one_cell_stored by (fastforce simp: broken_right_def broken_below_def)+
  then show ?thesis by (simp add: broken_walls_def)
qed

text \<open>
  C8, as amended. On the maze of width and height 1, whatever the random source,
  \<^verbatim>\<open>populateFrom(0, 0)\<close> returns true and yields exactly one cell, at \<open>(0, 0)\<close>, with its
  right and bottom walls present and no wall broken. Its rendering has two lines, the
  margin row above and the margin column to the left included: two spaces and two
  underscores, then space, bar, underscore, bar. (The claim gave the one line
  underscore, bar.)
\<close>

theorem one_by_one_maze:
  "populateFrom (Maze 1 1) g 0 0 = Inr ((one_cell, \<lambda>n. g (Suc n)), True) \<and>
   cells one_cell = {(0, 0)} \<and>
   getCell one_cell 0 0 = Real 0 0 \<and>
   hasWallRight one_cell (Real 0 0) \<and> hasWallBelow one_cell (Real 0 0) \<and>
   broken_walls one_cell = 0 \<and>
   populate_and_render 1 1 g 0 0 = Inr (''  __'' @ [CHR 0x0A] @ '' |_|'' @ [CHR 0x0A])"
proof (intro conjI)
  show "populateFrom (Maze 1 1) g 0 0 = Inr ((one_cell, \<lambda>n. g (Suc n)), True)"
    by (rule one_cell_populate)
  show "cells one_cell = {(0, 0)}" by (auto simp: cells_def one_cell_exists)
  show "getCell one_cell 0 0 = Real 0 0"
    by (simp add: getCell_cases one_cell_exists in_bounds_def one_cell_dims)
  show "hasWallRight one_cell (Real 0 0)" by (simp add: hasWallRight_def one_cell_stored)
  show "hasWallBelow one_cell (Real 0 0)" by (simp add: hasWallBelow_def one_cell_stored)
  show "broken_walls one_cell = 0" by (rule one_cell_broken)
  show "populate_and_render 1 1 g 0 0 = Inr (''  __'' @ [CHR 0x0A] @ '' |_|'' @ [CHR 0x0A])"
    by (simp add: populate_and_render_def one_cell_populate one_cell_str)
qed

text \<open>
  C8 as claimed fails: the rendering of that maze is not the string underscore, bar,
  newline.
\<close>

theorem one_by_one_render_counterexample:
  "populate_and_render 1 1 (fixed_rng 0) 0 0 \<noteq> Inr (''_|'' @ [CHR 0x0A])"
  by (simp add: populate_and_render_def one_cell_populate one_cell_str)

subsection \<open>\<^verbatim>\<open>populateFrom\<close>, case by case\<close>

lemma populateFrom_keeps_seed:
  assumes "\<not> cellExists m x y" "in_bounds m x y"
  shows "cellExists (fst (recursivePopulate_loop (fst (createCell m x y)) g' cell dirs)) x y"
proof (rule loop_preserves[where P = "\<lambda>m. cellExists m x y"])
  show "cellExists (fst (createCell m x y)) x y"
    using assms(2) by (simp add: cellExists_createCell)
qed (simp_all add: cellExists_createCell)

text \<open>
  C6, as amended. If a cell exists at \<open>(x, y)\<close>, \<^verbatim>\<open>populateFrom(x, y)\<close> returns false and the
  maze, walls and bounding box included, is unchanged. If no cell exists there and
  \<open>(x, y)\<close> lies within the bounds, it creates the seed cell and runs the recursive carving
  on it; when the carving returns, \<^verbatim>\<open>populateFrom\<close> returns true and the seed cell exists in
  the result, and the only other outcome is the \<^verbatim>\<open>RecursionError\<close> of a carving that
  nests deeper than the interpreter allows. The carving returns whenever the interpreter
  allows as many nested calls as there are free coordinates within the bounds. (The
  claim promised true for every coordinate without a cell.)
\<close>

theorem populateFrom_lim_cases:
  "(cellExists m x y \<longrightarrow> populateFrom_lim d m g x y = Inr ((m, g), False)) \<and>
   (\<not> cellExists m x y \<and> in_bounds m x y \<longrightarrow>
      (\<exists>m1. createCell m x y = (m1, Some (Real x y)) \<and> cellExists m1 x y \<and>
         (recursivePopulate_lim d m1 g (Some (Real x y)) = Inl RecursionError \<and>
          populateFrom_lim d m g x y = Inl RecursionError \<or>
          (\<exists>m' g'. recursivePopulate_lim d m1 g (Some (Real x y)) = Inr (m', g') \<and>
             populateFrom_lim d m g x y = Inr ((m', g'), True) \<and> cellExists m' x y)) \<and>
         (card (free m) \<le> d \<longrightarrow>
            (\<exists>m' g'. populateFrom_lim d m g x y = Inr ((m', g'), True)))))"
proof (intro conjI impI)
  assume "cellExists m x y"
  then show "populateFrom_lim d m g x y = Inr ((m, g), False)" by (rule populateFrom_lim_exists)
next
  assume a: "\<not> cellExists m x y \<and> in_bounds m x y"
  define m1 where "m1 = fst (createCell m x y)"
  have cc: "createCell m x y = (m1, Some (Real x y))"
    unfolding m1_def using createCell_in(1)[of m x y] a by (metis prod.collapse)
  have e1: "cellExists m1 x y" using a by (simp add: m1_def cellExists_createCell)
  have pl: "populateFrom_lim d m g x y =
              (case recursivePopulate_lim d m1 g (Some (Real x y)) of
                 Inl e \<Rightarrow> Inl e | Inr (m2, g2) \<Rightarrow> Inr ((m2, g2), True))"
    using a cc by (simp add: populateFrom_lim_def)
  have alt: "recursivePopulate_lim d m1 g (Some (Real x y)) = Inl RecursionError \<and>
          populateFrom_lim d m g x y = Inl RecursionError \<or>
          (\<exists>m' g'. recursivePopulate_lim d m1 g (Some (Real x y)) = Inr (m', g') \<and>
             populateFrom_lim d m g x y = Inr ((m', g'), True) \<and> cellExists m' x y)"
  proof (cases "recursivePopulate_lim d m1 g (Some (Real x y))")
    case (Inl e)
    then have "e = RecursionError" by (rule recursivePopulate_lim_error)
    then show ?thesis using Inl pl by simp
  next
    case (Inr p)
    obtain m' g' where p: "p = (m', g')" by (cases p)
    have pf: "populateFrom_lim d m g x y = Inr ((m', g'), True)" using Inr p pl by simp
    have "populateFrom m g x y = Inr ((m', g'), True)" by (rule populateFrom_lim_sound[OF pf])
    then have "m' = fst (recursivePopulate_loop (fst (createCell m x y)) (\<lambda>n. g (Suc n)) (Real x y)
                  (pick 4 (g 0) (directions (Real x y))))"
      using populateFrom_result a by blast
    then have "cellExists m' x y" using populateFrom_keeps_seed a by blast
    then show ?thesis using Inr p pf by blast
  qed
  have enough: "card (free m) \<le> d \<longrightarrow> (\<exists>m' g'. populateFrom_lim d m g x y = Inr ((m', g'), True))"
  proof
    assume d: "card (free m) \<le> d"
    have "free m1 \<subset> free m" using free_createCell[OF cc] a by simp
    then have "card (free m1) < card (free m)" by (rule psubset_card_mono[OF finite_free])
    then have "card (free m1) < d" using d by linarith
    then have "recursivePopulate_lim d m1 g (Some (Real x y)) = recursivePopulate m1 g (Some (Real x y))"
      by (rule recursivePopulate_lim_enough)
    moreover have "\<exists>r. recursivePopulate m1 g (Some (Real x y)) = Inr r"
      by (simp add: recursivePopulate_def sample_def)
    then obtain r where "recursivePopulate m1 g (Some (Real x y)) = Inr r" by blast
    ultimately show "\<exists>m' g'. populateFrom_lim d m g x y = Inr ((m', g'), True)"
      using pl by (cases r) simp
  qed
  show "\<exists>m1. createCell m x y = (m1, Some (Real x y)) \<and> cellExists m1 x y \<and>
         (recursivePopulate_lim d m1 g (Some (Real x y)) = Inl RecursionError \<and>
          populateFrom_lim d m g x y = Inl RecursionError \<or>
          (\<exists>m' g'. recursivePopulate_lim d m1 g (Some (Real x y)) = Inr (m', g') \<and>
             populateFrom_lim d m g x y = Inr ((m', g'), True) \<and> cellExists m' x y)) \<and>
         (card (free m) \<le> d \<longrightarrow>
            (\<exists>m' g'. populateFrom_lim d m g x y = Inr ((m', g'), True)))"
    using cc e1 alt enough by blast
qed

text \<open>
  C6 as claimed fails twice. Outside the bounds: on the empty maze of width and height 1
  no cell exists at \<open>(5, 5)\<close>, and \<^verbatim>\<open>populateFrom(5, 5)\<close> raises \<^verbatim>\<open>AttributeError\<close>, since
  \<^verbatim>\<open>createCell\<close> returned \<^verbatim>\<open>None\<close>. Within the bounds: on the empty maze of width 1 and
  height 2, with room for one nested call of the carving only, \<^verbatim>\<open>populateFrom(0, 0)\<close> raises
  \<^verbatim>\<open>RecursionError\<close> when the carving descends into the second cell.
\<close>

theorem populateFrom_raises_counterexample:
  "\<not> cellExists (Maze 1 1) 5 5 \<and>
   populateFrom_lim (Suc 0) (Maze 1 1) (fixed_rng 0) 5 5 = Inl AttributeError \<and>
   \<not> cellExists (Maze 1 2) 0 0 \<and>
   populateFrom_lim (Suc 0) (Maze 1 2) (fixed_rng 0) 0 0 = Inl RecursionError"
proof -
  define M where "M = fst (createCell (Maze 1 2) 0 0)"
  have ib: "in_bounds (Maze 1 2) 0 0" by (simp add: in_bounds_def)
  have cc: "createCell (Maze 1 2) 0 0 = (M, Some (Real 0 0))"
    unfolding M_def using createCell_in(1)[OF ib] by (metis prod.collapse)
  have ex: "cellExists M a b \<longleftrightarrow> a = 0 \<and> b = 0" for a b
    unfolding M_def by (auto simp: cellExists_createCell in_bounds_def)
  have dm: "max_width M = 1" "max_height M = 2" by (simp_all add: M_def)
  have ib1: "in_bounds M 0 1" by (simp add: in_bounds_def dm)
  have out: "\<not> in_bounds M (- 1) 0" "\<not> in_bounds M 0 (- 1)" "\<not> in_bounds M 1 0"
    by (simp_all add: in_bounds_def dm)
  have "recursivePopulate_loop_lim 0 M g (Real 0 0) (directions (Real 0 0)) = Inl RecursionError" for g
    by (simp add: directions_def ex createCell_out out case_createCell_in[OF ib1])
  then have "recursivePopulate_lim (Suc 0) M (fixed_rng 0) (Some (Real 0 0)) = Inl RecursionError"
    by (simp add: recursivePopulate_lim_def sample_def fixed_rng_def pick_numeral directions_def)
  then have "populateFrom_lim (Suc 0) (Maze 1 2) (fixed_rng 0) 0 0 = Inl RecursionError"
    by (simp add: populateFrom_lim_def cc)
  moreover have "populateFrom_lim (Suc 0) (Maze 1 1) (fixed_rng 0) 5 5 = Inl AttributeError"
    by (simp add: populateFrom_lim_out in_bounds_def)
  ultimately show ?thesis by simp
qed

theorem populateFrom_lim_cases_witness:
  "cellExists one_cell 0 0 \<and>
   populateFrom_lim 1000 one_cell (fixed_rng 0) 0 0 = Inr ((one_cell, fixed_rng 0), False) \<and>
   \<not> cellExists (Maze 2 2) 0 0 \<and> in_bounds (Maze 2 2) 0 0 \<and> card (free (Maze 2 2)) \<le> 1000 \<and>
   (\<exists>m' g'. populateFrom_lim 1000 (Maze 2 2) (fixed_rng 0) 0 0 = Inr ((m', g'), True) \<and>
      cellExists m' 0 0)"
proof -
  have a: "cellExists one_cell 0 0" by (simp add: one_cell_exists)
  have b: "\<not> cellExists (Maze 2 2) 0 0" by simp
  have c: "in_bounds (Maze 2 2) 0 0" by (simp add: in_bounds_def)
  have d: "card (free (Maze 2 2)) \<le> 1000" using card_free_le[of "Maze 2 2"] by simp
  have e: "populateFrom_lim 1000 one_cell (fixed_rng 0) 0 0 = Inr ((one_cell, fixed_rng 0), False)"
    using populateFrom_lim_cases[of one_cell 0 0 1000 "fixed_rng 0"] a by blast
  have "\<exists>m' g'. populateFrom_lim 1000 (Maze 2 2) (fixed_rng 0) 0 0 = Inr ((m', g'), True) \<and>
      cellExists m' 0 0"
    using populateFrom_lim_cases[of "Maze 2 2" 0 0 1000 "fixed_rng 0"] b c d by fastforce
  then show ?thesis using a b c d e by blast
qed

subsection \<open>\<^verbatim>\<open>createCell\<close>, case by case\<close>






subsection \<open>The walls at the rim\<close>

text \<open>
  C7. In every state reached by the constructor, \<^verbatim>\<open>createCell\<close> and \<^verbatim>\<open>populateFrom\<close>, take any
  stored cell at \<open>(x, y)\<close>. If no cell lies further right, its right wall is present; if
  none lies further down, its bottom wall is present; if none lies further left, the
  virtual cell one step to its left reports a right wall; if none lies further up, the
  virtual cell one step above reports a bottom wall. So no outward-facing wall of the
  populated region is ever broken.
\<close>

theorem boundary_walls_present:
  assumes "generated m" "cellExists m x y"
  shows "((\<forall>a b. cellExists m a b \<longrightarrow> a \<le> x) \<longrightarrow> hasWallRight m (getCell m x y)) \<and>
         ((\<forall>a b. cellExists m a b \<longrightarrow> b \<le> y) \<longrightarrow> hasWallBelow m (getCell m x y)) \<and>
         ((\<forall>a b. cellExists m a b \<longrightarrow> x \<le> a) \<longrightarrow> hasWallRight m (getCell m (x - 1) y)) \<and>
         ((\<forall>a b. cellExists m a b \<longrightarrow> y \<le> b) \<longrightarrow> hasWallBelow m (getCell m x (y - 1)))"
proof -
  have wb: "walls_backed m" by (rule generated_walls_backed[OF assms(1)])
  have re: "reachable m" by (rule generated_reachable[OF assms(1)])
  obtain c where c: "stored m x y = Some c" using assms(2) by (auto simp: cellExists_stored)
  have cw: "\<not> wall_right c \<longrightarrow> cellExists m (x + 1) y" "\<not> wall_below c \<longrightarrow> cellExists m x (y + 1)"
    using wb c by (auto simp: walls_backed_def)
  show ?thesis
  proof (intro conjI impI)
    assume "\<forall>a b. cellExists m a b \<longrightarrow> a \<le> x"
    then have "\<not> cellExists m (x + 1) y" by fastforce
    then show "hasWallRight m (getCell m x y)" using cw(1) hasWall_getCell_stored(1)[OF re c] by blast
  next
    assume "\<forall>a b. cellExists m a b \<longrightarrow> b \<le> y"
    then have "\<not> cellExists m x (y + 1)" by fastforce
    then show "hasWallBelow m (getCell m x y)" using cw(2) hasWall_getCell_stored(2)[OF re c] by blast
  next
    assume "\<forall>a b. cellExists m a b \<longrightarrow> x \<le> a"
    then have "\<not> cellExists m (x - 1) y" by fastforce
    then show "hasWallRight m (getCell m (x - 1) y)"
      using hasWall_getCell_absent(1)[of m "x - 1" y] assms(2) by simp
  next
    assume "\<forall>a b. cellExists m a b \<longrightarrow> y \<le> b"
    then have "\<not> cellExists m x (y - 1)" by fastforce
    then show "hasWallBelow m (getCell m x (y - 1))"
      using hasWall_getCell_absent(2)[of m x "y - 1"] assms(2) by simp
  qed
qed

theorem boundary_walls_present_witness:
  "\<exists>m' g'. populateFrom (Maze 2 1) (fixed_rng 0) 0 0 = Inr ((m', g'), True) \<and> generated m' \<and>
     broken_walls m' = 1 \<and> \<not> hasWallRight m' (getCell m' 0 0) \<and>
     cellExists m' 0 0 \<and> cellExists m' 1 0 \<and>
     hasWallRight m' (getCell m' 1 0) \<and>
     hasWallBelow m' (getCell m' 0 0) \<and> hasWallBelow m' (getCell m' 1 0) \<and>
     hasWallRight m' (getCell m' (0 - 1) 0) \<and>
     hasWallBelow m' (getCell m' 0 (0 - 1)) \<and> hasWallBelow m' (getCell m' 1 (0 - 1))"
proof -
  obtain m' g' where pf: "populateFrom (Maze 2 1) (fixed_rng 0) 0 0 = Inr ((m', g'), True)"
      and cs: "cells m' = {0..<2} \<times> {0..<1}"
      and bw: "broken_walls m' = card (cells m') - 1"
    using populate_tree[of 2 1 0 0 "fixed_rng 0"] by auto
  have gen: "generated m'" by (rule generated_populate[OF generated_init pf])
  have re: "reachable m'" by (rule generated_reachable[OF gen])
  have ex: "cellExists m' a b \<longleftrightarrow> (a = 0 \<or> a = 1) \<and> b = 0" for a b
  proof -
    have "cellExists m' a b \<longleftrightarrow> (a, b) \<in> cells m'" by (simp add: cells_def)
    then show ?thesis unfolding cs by auto
  qed
  have e0: "cellExists m' 0 0" and e1: "cellExists m' 1 0" by (simp_all add: ex)
  have rim1: "hasWallRight m' (getCell m' 1 0)" "hasWallBelow m' (getCell m' 1 0)"
    "hasWallBelow m' (getCell m' 1 (0 - 1))"
    using boundary_walls_present[OF gen e1] by (simp_all add: ex)
  have rim0: "hasWallBelow m' (getCell m' 0 0)" "hasWallRight m' (getCell m' (0 - 1) 0)"
    "hasWallBelow m' (getCell m' 0 (0 - 1))"
    using boundary_walls_present[OF gen e0] by (simp_all add: ex)
  have "card (cells m') = 2" unfolding cs by (simp add: card_cartesian_product)
  then have one: "broken_walls m' = 1" using bw by simp
  have inner: "\<not> hasWallRight m' (getCell m' 0 0)"
  proof
    assume w: "hasWallRight m' (getCell m' 0 0)"
    have "broken_walls m' = 0"
    proof (rule broken_walls_zero[OF re])
      fix a b assume "cellExists m' a b"
      then have "(a = 0 \<or> a = 1) \<and> b = 0" by (simp add: ex)
      then show "hasWallRight m' (getCell m' a b)" using w rim1(1) by auto
    next
      fix a b assume "cellExists m' a b"
      then have "(a = 0 \<or> a = 1) \<and> b = 0" by (simp add: ex)
      then show "hasWallBelow m' (getCell m' a b)" using rim0(1) rim1(2) by auto
    qed
    then show False using one by simp
  qed
  show ?thesis
    using pf gen one inner e0 e1 rim1 rim0 by (intro exI[of _ m'] exI[of _ g']) simp
qed

subsection \<open>The generated maze is a spanning tree\<close>

text \<open>
  C1. Take a maze constructed with positive width \<open>w\<close> and height \<open>h\<close>, still empty, and
  a coordinate \<open>(x, y)\<close> within the bounds. Whatever the random source delivers,
  \<^verbatim>\<open>populateFrom(x, y)\<close> returns true, and in the maze it leaves every coordinate of
  \<open>[0, w) \<times> [0, h)\<close> holds a real cell, the populated cells are exactly those, the number
  of broken walls is the number of cells minus one, any two cells are linked by a chain of
  passages, and no cycle of passages exists.
\<close>

theorem populate_spanning_tree:
  assumes "0 < w" "0 < h" "0 \<le> x" "x < w" "0 \<le> y" "y < h"
  shows "\<exists>m' g'. populateFrom (Maze w h) g x y = Inr ((m', g'), True) \<and>
           (\<forall>i j. 0 \<le> i \<and> i < w \<and> 0 \<le> j \<and> j < h \<longrightarrow>
              cellExists m' i j \<and> getCell m' i j = Real i j \<and> \<not> empty (deref m' (getCell m' i j))) \<and>
           cells m' = {0..<w} \<times> {0..<h} \<and>
           broken_walls m' = card (cells m') - 1 \<and> connected m' \<and> acyclic_maze m'"
  using assms by (rule populate_tree)

theorem populate_spanning_tree_witness:
  "(0::int) < 2 \<and> (0::int) < 3 \<and> (0::int) \<le> 1 \<and> (1::int) < 2 \<and> (0::int) \<le> 2 \<and> (2::int) < 3 \<and>
   (\<exists>m' g'. populateFrom (Maze 2 3) (fixed_rng 5) 1 2 = Inr ((m', g'), True) \<and>
      cells m' = {0..<2} \<times> {0..<3} \<and>
      broken_walls m' = card (cells m') - 1 \<and> connected m' \<and> acyclic_maze m')"
proof -
  have "\<exists>m' g'. populateFrom (Maze 2 3) (fixed_rng 5) 1 2 = Inr ((m', g'), True) \<and>
      cells m' = {0..<2} \<times> {0..<3} \<and>
      broken_walls m' = card (cells m') - 1 \<and> connected m' \<and> acyclic_maze m'"
    using populate_spanning_tree[of 2 3 1 2 "fixed_rng 5"] by auto
  then show ?thesis by simp
qed


end
